theory Spec2Isabelle
  imports Main "HOL-Library.Multiset"
begin

section \<open>AdSend: utility functions\<close>

text \<open>
  Every \<^verbatim>\<open>Math.random()\<close> call of the script is followed by
  \<^verbatim>\<open>Math.floor(... * k)\<close>. \<^verbatim>\<open>Math.random()\<close> lies in \<open>[0, 1)\<close>, so the result is some
  index below \<open>k\<close> (and \<open>0\<close> when \<open>k\<close> is \<open>0\<close>). The random source is a sequence of
  naturals \<open>rnd\<close>, the \<open>p\<close>-th call reads \<open>rnd p\<close> and reduces it below \<open>k\<close>; the
  position \<open>p\<close> is threaded through every function that draws.
\<close>

definition randomIndex :: "(nat \<Rightarrow> nat) \<Rightarrow> nat \<Rightarrow> nat \<Rightarrow> nat" where
  "randomIndex rnd p k = (if k = 0 then 0 else rnd p mod k)"

text \<open>
  \<^verbatim>\<open>shuffle(array)\<close>: the loop \<^verbatim>\<open>while (m) { i = floor(random() * m--); t = array[m];
  array[m] = array[i]; array[i] = t; }\<close>. The first argument of \<open>shuffle_loop\<close> is
  the value of \<open>m\<close> before the decrement.
\<close>

fun shuffle_loop :: "(nat \<Rightarrow> nat) \<Rightarrow> nat \<Rightarrow> 'a list \<Rightarrow> nat \<Rightarrow> 'a list \<times> nat" where
  "shuffle_loop rnd 0 array p = (array, p)"
| "shuffle_loop rnd (Suc m) array p =
     (let i = randomIndex rnd p (Suc m);
          t = array ! m;
          array1 = array[m := array ! i];
          array2 = array1[i := t]
      in shuffle_loop rnd m array2 (Suc p))"

definition shuffle :: "(nat \<Rightarrow> nat) \<Rightarrow> 'a list \<Rightarrow> nat \<Rightarrow> 'a list \<times> nat" where
  "shuffle rnd array p = shuffle_loop rnd (length array) array p"

section \<open>The page: DOM nodes\<close>

text \<open>
  A node is a text node or an element with a tag name, the tokens of its \<^verbatim>\<open>class\<close>
  attribute, its \<^verbatim>\<open>id\<close> (empty when absent), its \<^verbatim>\<open>data-ad-index\<close> attribute
  (\<^verbatim>\<open>dataset.adIndex\<close>, \<open>None\<close> when absent) and its child nodes. Inline styles,
  computed styles and geometry are written and read by the script but decide none of
  its control flow, except \<^verbatim>\<open>display\<close>, which is a parameter of the environment.
  A node inside a container is addressed by its path: the child index at every level.
\<close>

datatype node =
    Text string
  | Element (tagName: string) (classList: "string list") (ident: string)
            (adIndex: "string option") (childNodes: "node list")

definition adSendBanner :: string where
  "adSendBanner = ''ad-send-banner''"

fun isElement :: "node \<Rightarrow> bool" where
  "isElement (Text t) = False"
| "isElement (Element t cs i a ks) = True"

text \<open>\<^verbatim>\<open>el.classList.contains(c)\<close>\<close>

fun classListContains :: "string \<Rightarrow> node \<Rightarrow> bool" where
  "classListContains c (Text t) = False"
| "classListContains c (Element t cs i a ks) = (c \<in> set cs)"

definition isAd :: "node \<Rightarrow> bool" where
  "isAd n = classListContains adSendBanner n"

definition bumpHead :: "nat list \<Rightarrow> nat list" where
  "bumpHead p = (case p of [] \<Rightarrow> [] | j # q \<Rightarrow> Suc j # q)"

text \<open>
  \<^verbatim>\<open>container.querySelector(sel)\<close> for a selector that tests the element alone: the
  first descendant in document order (an element comes before its own descendants).
\<close>

fun findFirst :: "(node \<Rightarrow> bool) \<Rightarrow> node list \<Rightarrow> nat list option" where
  "findFirst P [] = None"
| "findFirst P (Text t # ns) = map_option bumpHead (findFirst P ns)"
| "findFirst P (Element t cs i a ks # ns) =
     (if P (Element t cs i a ks) then Some [0]
      else case findFirst P ks of
             Some q \<Rightarrow> Some (0 # q)
           | None \<Rightarrow> map_option bumpHead (findFirst P ns))"

fun getAt :: "nat list \<Rightarrow> node list \<Rightarrow> node option" where
  "getAt [] ns = None"
| "getAt [j] ns = (if j < length ns then Some (ns ! j) else None)"
| "getAt (j # q) ns =
     (if j < length ns
      then (case ns ! j of Text t \<Rightarrow> None | Element t cs i a ks \<Rightarrow> getAt q ks)
      else None)"

fun updateAt :: "nat list \<Rightarrow> (node \<Rightarrow> node) \<Rightarrow> node list \<Rightarrow> node list" where
  "updateAt [] f ns = ns"
| "updateAt [j] f ns = (if j < length ns then ns[j := f (ns ! j)] else ns)"
| "updateAt (j # q) f ns =
     (if j < length ns
      then (case ns ! j of
              Text t \<Rightarrow> ns
            | Element t cs i a ks \<Rightarrow> ns[j := Element t cs i a (updateAt q f ks)])
      else ns)"

text \<open>Detaching the node at a path from its parent.\<close>

fun removeAt :: "nat list \<Rightarrow> node list \<Rightarrow> node list" where
  "removeAt [] ns = ns"
| "removeAt [j] ns = take j ns @ drop (Suc j) ns"
| "removeAt (j # q) ns =
     (if j < length ns
      then (case ns ! j of
              Text t \<Rightarrow> ns
            | Element t cs i a ks \<Rightarrow> ns[j := Element t cs i a (removeAt q ks)])
      else ns)"

text \<open>
  \<^verbatim>\<open>parent.insertBefore(newNode, parent.childNodes[r])\<close> for a node that is not in the
  tree yet, and for a node of the tree at path \<open>p\<close>, which the DOM first detaches from
  its old parent: a detached earlier sibling moves the reference node one to the left.
  \<^verbatim>\<open>parent.appendChild(node)\<close> likewise.
\<close>

definition insertBeforeNew :: "node \<Rightarrow> nat \<Rightarrow> node list \<Rightarrow> node list" where
  "insertBeforeNew w r ns = take r ns @ w # drop r ns"

definition refAfterDetach :: "nat list \<Rightarrow> nat \<Rightarrow> nat" where
  "refAfterDetach p r = (case p of [j] \<Rightarrow> (if j < r then r - 1 else r) | _ \<Rightarrow> r)"

definition insertBeforeMove :: "nat list \<Rightarrow> nat \<Rightarrow> node list \<Rightarrow> node list" where
  "insertBeforeMove p r ns =
     (case getAt p ns of
        None \<Rightarrow> ns
      | Some w \<Rightarrow> insertBeforeNew w (refAfterDetach p r) (removeAt p ns))"

definition appendChildMove :: "nat list \<Rightarrow> node list \<Rightarrow> node list" where
  "appendChildMove p ns =
     (case getAt p ns of None \<Rightarrow> ns | Some w \<Rightarrow> removeAt p ns @ [w])"

fun setChildNodes :: "node list \<Rightarrow> node \<Rightarrow> node" where
  "setChildNodes ks' (Text t) = Text t"
| "setChildNodes ks' (Element t cs i a ks) = Element t cs i a ks'"

text \<open>\<^verbatim>\<open>classList.remove(...)\<close> and \<^verbatim>\<open>classList.add(c)\<close> on the token list.\<close>

definition classListRemove :: "string list \<Rightarrow> string list \<Rightarrow> string list" where
  "classListRemove rs cs = filter (\<lambda>c. c \<notin> set rs) cs"

definition classListAdd :: "string \<Rightarrow> string list \<Rightarrow> string list" where
  "classListAdd c cs = (if c \<in> set cs then cs else cs @ [c])"

section \<open>Configuration document, environment and module state\<close>

text \<open>
  The configuration document \<^verbatim>\<open>ad-config.json\<close> is an array of per-site objects. An
  absent or falsy field is \<open>None\<close>; an entry of \<^verbatim>\<open>containers\<close> is a selector string or an
  object with an optional \<^verbatim>\<open>name\<close>.
\<close>

datatype selector_entry = SelectorString string | SelectorObject "string option"

record banner =
  imageUrl :: "string option"
  targetUrl :: "string option"

record propertyConfig =
  cfg_property_id :: "string option"
  cfg_url :: "string option"
  cfg_containers :: "selector_entry list option"
  cfg_banners :: "banner list option"
  cfg_copySiblingSelector :: "string option"

datatype json_document = NotAnArray | ConfigArray "propertyConfig list"

datatype response_body = MalformedJSON | ParsedJSON json_document

text \<open>
  What one \<^verbatim>\<open>fetch(configUrl)\<close> yields: a rejected promise, or a response with its
  \<^verbatim>\<open>ok\<close> flag and what \<^verbatim>\<open>res.json()\<close> makes of the body.
\<close>

datatype fetch_outcome = NetworkError | Response bool response_body

datatype timer_callback = RotateAdSlots | FetchAllBannersFromFile

datatype exn = TypeError | SyntaxError

text \<open>
  The environment of the script: the outcomes of the successive \<^verbatim>\<open>Math.random()\<close> and
  \<^verbatim>\<open>fetch\<close> calls, the \<^verbatim>\<open>data-property\<close> attribute of the script tag, the page URL
  (origin and path), the HTML parser behind \<^verbatim>\<open>innerHTML\<close>, the selector engine
  (\<open>None\<close> for a selector that is not valid CSS, which throws) and whether an element's
  computed \<^verbatim>\<open>display\<close> is \<^verbatim>\<open>none\<close>. \<open>querySelectorAll\<close> gives the handles of the matched
  containers, \<open>querySelector\<close> the path of the match below a container.
\<close>

record env =
  mathRandom :: "nat \<Rightarrow> nat"
  network :: "nat \<Rightarrow> fetch_outcome"
  propertyId :: "string option"
  pageUrl :: string
  parseHTML :: "string \<Rightarrow> node list"
  querySelectorAll :: "string \<Rightarrow> (nat \<Rightarrow> node) \<Rightarrow> nat list option"
  querySelector :: "string \<Rightarrow> node \<Rightarrow> nat list option option"
  displayNone :: "node \<Rightarrow> bool"

text \<open>
  The module's variables, \<^verbatim>\<open>window._adConfigBanners\<close>, the containers of the page by
  handle (the key of the \<^verbatim>\<open>WeakMap\<close>), the number of \<^verbatim>\<open>Math.random()\<close> and \<^verbatim>\<open>fetch\<close>
  calls made so far, the \<^verbatim>\<open>console.error\<close> lines and the \<^verbatim>\<open>setInterval\<close> registrations
  (callback and period in milliseconds).

  Every handle has a tree of its own, so the state describes pages on which the matched
  containers are separate: none lies inside another one, and no selector matches a
  wrapper. On a page where they are nested, a placement on the outer container also
  changes the tree of the inner one; what a single placement does to the tree of its
  own container is the same there.
\<close>

record state =
  adQueues :: "nat \<Rightarrow> string list option"
  adRotationQueue :: "string list"
  banners :: "string list"
  bannerIndex :: nat
  containerSelectors :: "selector_entry list"
  rotationOffset :: nat
  copySiblingSelector :: "string option"
  adConfigBanners :: "banner list option"
  page :: "nat \<Rightarrow> node"
  draws :: nat
  fetches :: nat
  console :: "string list"
  timers :: "(timer_callback \<times> nat) list"

datatype outcome = Returned state | Threw exn state

fun stateOf :: "outcome \<Rightarrow> state" where
  "stateOf (Returned s) = s"
| "stateOf (Threw x s) = s"

section \<open>Ad rotation logic\<close>

text \<open>
  \<^verbatim>\<open>getNextAd(container, banners)\<close>. \<^verbatim>\<open>queue.shift()\<close> on an empty array gives
  \<^verbatim>\<open>undefined\<close>, here \<open>None\<close>.
\<close>

definition getNextAd :: "env \<Rightarrow> nat \<Rightarrow> string list \<Rightarrow> state \<Rightarrow> string option \<times> state" where
  "getNextAd e container bs s =
     (let (queue, s1) =
            (if adQueues s container = None \<or> adQueues s container = Some []
             then (let (shuffled, p) = shuffle (mathRandom e) bs (draws s)
                   in (shuffled, s\<lparr>adQueues := (adQueues s)(container \<mapsto> shuffled), draws := p\<rparr>))
             else (the (adQueues s container), s))
      in case queue of
           [] \<Rightarrow> (None, s1)
         | x # rest \<Rightarrow> (Some x, s1\<lparr>adQueues := (adQueues s1)(container \<mapsto> rest)\<rparr>))"

text \<open>\<^verbatim>\<open>getNextAdRoundRobin(banners)\<close>, the global queue.\<close>

definition getNextAdRoundRobin :: "env \<Rightarrow> string list \<Rightarrow> state \<Rightarrow> string option \<times> state" where
  "getNextAdRoundRobin e bs s =
     (let s1 = (if adRotationQueue s = []
                then (let (shuffled, p) = shuffle (mathRandom e) bs (draws s)
                      in s\<lparr>adRotationQueue := shuffled, draws := p\<rparr>)
                else s)
      in case adRotationQueue s1 of
           [] \<Rightarrow> (None, s1)
         | x # rest \<Rightarrow> (Some x, s1\<lparr>adRotationQueue := rest\<rparr>))"

text \<open>
  A run of the page as far as one container's queue can tell: calls of \<open>getNextAd\<close> for
  any containers with one banner list, with other \<^verbatim>\<open>Math.random()\<close> calls (animations,
  shuffles of the container list) between them. The result lists, in order, what each
  \<open>getNextAd\<close> call returned and for which container.
\<close>

datatype event = GetNextAd nat | OtherRandom

fun runEvents :: "env \<Rightarrow> string list \<Rightarrow> event list \<Rightarrow> state \<Rightarrow> (nat \<times> string option) list \<times> state" where
  "runEvents e bs [] s = ([], s)"
| "runEvents e bs (OtherRandom # evs) s = runEvents e bs evs (s\<lparr>draws := Suc (draws s)\<rparr>)"
| "runEvents e bs (GetNextAd c # evs) s =
     (let (ad, s1) = getNextAd e c bs s;
          (ads, s2) = runEvents e bs evs s1
      in ((c, ad) # ads, s2))"

definition returnedFor :: "nat \<Rightarrow> (nat \<times> string option) list \<Rightarrow> string option list" where
  "returnedFor c ads = map snd (filter (\<lambda>r. fst r = c) ads)"

text \<open>The \<open>k\<close>-th block of \<open>n\<close> consecutive entries of a list.\<close>

definition cycle :: "nat \<Rightarrow> nat \<Rightarrow> 'a list \<Rightarrow> 'a list" where
  "cycle n k xs = take n (drop (k * n) xs)"

section \<open>Numbers in attributes\<close>

text \<open>
  \<^verbatim>\<open>parseInt(string, 10)\<close>: leading white space is skipped, one sign is read, then the
  longest run of decimal digits; no digit gives \<^verbatim>\<open>NaN\<close>, here \<open>None\<close>. Strings are byte
  strings, so the white space is the ASCII part of the language's white space.
\<close>

definition isStrWhiteSpace :: "char \<Rightarrow> bool" where
  "isStrWhiteSpace c = (c \<in> set [CHR 0x09, CHR 0x0A, CHR 0x0B, CHR 0x0C, CHR 0x0D, CHR 0x20])"

definition isDigit :: "char \<Rightarrow> bool" where
  "isDigit c = (48 \<le> (of_char c :: nat) \<and> (of_char c :: nat) \<le> 57)"

definition digitValue :: "char \<Rightarrow> nat" where
  "digitValue c = of_char c - 48"

definition parseInt :: "string \<Rightarrow> int option" where
  "parseInt str =
     (let s1 = dropWhile isStrWhiteSpace str;
          negative = (case s1 of [] \<Rightarrow> False | c # r \<Rightarrow> c = CHR ''-'');
          s2 = (case s1 of [] \<Rightarrow> [] | c # r \<Rightarrow> if c = CHR ''+'' \<or> c = CHR ''-'' then r else s1);
          z = takeWhile isDigit s2
      in if z = [] then None
         else Some ((if negative then - 1 else 1) * int (foldl (\<lambda>v c. 10 * v + digitValue c) 0 z)))"

text \<open>\<^verbatim>\<open>String(idx)\<close> for a non-negative integer, as the \<^verbatim>\<open>dataset\<close> setter stores it.\<close>

definition digitChar :: "nat \<Rightarrow> char" where
  "digitChar d = char_of (48 + d)"

fun numToString :: "nat \<Rightarrow> string" where
  "numToString n = (if n < 10 then [digitChar n] else numToString (n div 10) @ [digitChar (n mod 10)])"

declare numToString.simps [simp del]

section \<open>Style replication and animation\<close>

fun setClassName :: "string list \<Rightarrow> node \<Rightarrow> node" where
  "setClassName cs' (Text t) = Text t"
| "setClassName cs' (Element t cs i a ks) = Element t cs' i a ks"

fun setId :: "string \<Rightarrow> node \<Rightarrow> node" where
  "setId i' (Text t) = Text t"
| "setId i' (Element t cs i a ks) = Element t cs i' a ks"

text \<open>
  \<^verbatim>\<open>replicateSiblingStyles(target, siblings)\<close>, on the child list of the container:
  \<open>target\<close> and \<open>siblings\<close> are child positions. The copied style properties are not
  modelled; the class name and the id are.
\<close>

definition replicateSiblingStyles :: "env \<Rightarrow> nat \<Rightarrow> nat list \<Rightarrow> node list \<Rightarrow> node list" where
  "replicateSiblingStyles e target siblings ks =
     (if siblings = [] then ks
      else case find (\<lambda>el. el \<noteq> target \<and> \<not> displayNone e (ks ! el)) siblings of
             None \<Rightarrow> ks
           | Some r \<Rightarrow>
               (let className = filter (\<lambda>c. c \<noteq> [] \<and> c \<noteq> adSendBanner) (classList (ks ! r))
                                  @ [adSendBanner];
                    t1 = setClassName className (ks ! target);
                    t2 = (if ident (ks ! r) \<noteq> [] \<and> ident (ks ! r) \<noteq> ident t1
                          then setId (ident (ks ! r) @ ''-ad'') t1 else t1)
                in ks[target := t2]))"

definition animations :: "string list" where
  "animations = [''ad-flip-in'', ''ad-bounce-in'', ''ad-fade-in'', ''ad-slide-in'']"

text \<open>
  What \<^verbatim>\<open>animateAdEntry\<close> does to every \<^verbatim>\<open>img\<close> below the wrapper: the class
  \<^verbatim>\<open>ad-img-anim\<close> is removed and added again.
\<close>

fun restartImgAnim :: "node \<Rightarrow> node" where
  "restartImgAnim (Text t) = Text t"
| "restartImgAnim (Element t cs i a ks) =
     Element t (if t = ''img'' then classListAdd ''ad-img-anim'' (classListRemove [''ad-img-anim''] cs)
                else cs)
       i a (map restartImgAnim ks)"

text \<open>
  \<^verbatim>\<open>animateAdEntry(adWrapper, refNode)\<close>: one random draw picks the animation class.
  The \<^verbatim>\<open>animationend\<close> listener, which removes that class later, and the sizes taken from
  \<^verbatim>\<open>refNode\<close> are not modelled.
\<close>

definition animateAdEntry :: "env \<Rightarrow> node \<Rightarrow> nat \<Rightarrow> node \<times> nat" where
  "animateAdEntry e adWrapper p =
     (let cs1 = classListRemove animations (classList adWrapper);
          anim = animations ! randomIndex (mathRandom e) p (length animations);
          cs2 = classListAdd anim cs1
      in (setChildNodes (map restartImgAnim (childNodes adWrapper)) (setClassName cs2 adWrapper),
          Suc p))"

section \<open>Ad sending\<close>

definition startsWith :: "string \<Rightarrow> string \<Rightarrow> bool" where
  "startsWith str pre = (take (length pre) str = pre)"

text \<open>\<^verbatim>\<open>str.includes(sub)\<close>\<close>

fun stringIncludes :: "string \<Rightarrow> string \<Rightarrow> bool" where
  "stringIncludes [] sub = (sub = [])"
| "stringIncludes (c # cs) sub = (startsWith (c # cs) sub \<or> stringIncludes cs sub)"

definition truthy :: "string option \<Rightarrow> bool" where
  "truthy v = (case v of None \<Rightarrow> False | Some str \<Rightarrow> str \<noteq> [])"

text \<open>A value used as a string: \<^verbatim>\<open>undefined\<close> reads \<^verbatim>\<open>"undefined"\<close>.\<close>

definition toString :: "string option \<Rightarrow> string" where
  "toString v = (case v of None \<Rightarrow> ''undefined'' | Some str \<Rightarrow> str)"

text \<open>The preset slot test of \<open>sendAd\<close>.\<close>

definition isSlot :: "node \<Rightarrow> bool" where
  "isSlot container =
     (classListContains adSendBanner container \<or> startsWith (ident container) ''banner-slot-'')"

text \<open>
  The element that \<open>sendAd\<close> creates: \<^verbatim>\<open>document.createElement('div')\<close> with
  \<^verbatim>\<open>className = 'ad-send-banner'\<close>.
\<close>

definition newAdWrapper :: node where
  "newAdWrapper = Element ''div'' [adSendBanner] [] None []"

text \<open>
  The positions, in the child nodes, of
  \<^verbatim>\<open>Array.from(container.children).filter(el => !el.classList.contains('ad-send-banner'))\<close>.
\<close>

definition nonAdChildren :: "node list \<Rightarrow> nat list" where
  "nonAdChildren ks = filter (\<lambda>j. isElement (ks ! j) \<and> \<not> isAd (ks ! j)) [0..<length ks]"

text \<open>A child that counts for the insertion point: an element without the wrapper class.\<close>

definition nonAd :: "node \<Rightarrow> bool" where
  "nonAd n = (isElement n \<and> \<not> isAd n)"

text \<open>
  The choice of the insertion index: the persisted \<^verbatim>\<open>data-ad-index\<close> when it parses to
  an index in bounds, \<open>1\<close> (persisted again) when it does not, and a random valid index
  (persisted) when there is none. The result is the index (\<open>None\<close> for \<^verbatim>\<open>undefined\<close>),
  the attribute afterwards and the position of the random source.
\<close>

definition chooseIndex :: "env \<Rightarrow> string option \<Rightarrow> nat \<Rightarrow> nat \<Rightarrow> nat option \<times> string option \<times> nat" where
  "chooseIndex e attr n p =
     (case attr of
        Some a \<Rightarrow>
          (case parseInt a of
             None \<Rightarrow> (Some 1, Some (numToString 1), p)
           | Some idx \<Rightarrow>
               if idx < 1 \<or> idx \<ge> int n - 1 then (Some 1, Some (numToString 1), p)
               else (Some (nat idx), attr, p))
      | None \<Rightarrow>
          (let validIndexes = [1..<n - 1];
               r = randomIndex (mathRandom e) p (length validIndexes)
           in if r < length validIndexes
              then (Some (validIndexes ! r), Some (numToString (validIndexes ! r)), Suc p)
              else (None, None, Suc p)))"

text \<open>
  Creating or moving the wrapper so that it follows the reference child at position
  \<open>refPos\<close>. The result is the new child list and the position of the wrapper in it.
\<close>

definition placeWrapper :: "nat list option \<Rightarrow> nat \<Rightarrow> node list \<Rightarrow> node list \<times> nat" where
  "placeWrapper adWrapper refPos ks =
     (case adWrapper of
        None \<Rightarrow>
          (if Suc refPos < length ks
           then (insertBeforeNew newAdWrapper (Suc refPos) ks, Suc refPos)
           else (ks @ [newAdWrapper], length ks))
      | Some p \<Rightarrow>
          (if p \<noteq> [Suc refPos]
           then (if Suc refPos < length ks
                 then (insertBeforeMove p (Suc refPos) ks, refAfterDetach p (Suc refPos))
                 else (appendChildMove p ks, length (removeAt p ks)))
           else (ks, Suc refPos)))"

text \<open>
  What \<open>placeWrapper\<close> amounts to: the wrapper (new, or the one found) is taken out of
  the child list and put back right after the reference child.
\<close>

definition detached :: "nat list option \<Rightarrow> node list \<Rightarrow> node list" where
  "detached adWrapper ks = (case adWrapper of None \<Rightarrow> ks | Some p \<Rightarrow> removeAt p ks)"

definition wrapperNode :: "nat list option \<Rightarrow> node list \<Rightarrow> node" where
  "wrapperNode adWrapper ks = (case adWrapper of None \<Rightarrow> newAdWrapper | Some p \<Rightarrow> the (getAt p ks))"

definition wrapperPos :: "nat list option \<Rightarrow> nat \<Rightarrow> nat" where
  "wrapperPos adWrapper r = (case adWrapper of None \<Rightarrow> Suc r | Some p \<Rightarrow> refAfterDetach p (Suc r))"

text \<open>The end of \<open>sendAd\<close> for a generic container: the entry animation of the wrapper.\<close>

definition finishAd :: "env \<Rightarrow> nat \<Rightarrow> nat \<Rightarrow> node list \<Rightarrow> state \<Rightarrow> outcome" where
  "finishAd e container wpos ks s =
     (let (w, p) = animateAdEntry e (ks ! wpos) (draws s);
          c = page s container
      in Returned (s\<lparr>draws := p, page := (page s)(container := setChildNodes (ks[wpos := w]) c)\<rparr>))"

text \<open>
  The markup that goes into the clone of the configured sibling: wrapped in a link when
  a banner of \<^verbatim>\<open>window._adConfigBanners\<close> whose image URL occurs in the ad has a target
  URL. \<^verbatim>\<open>adHtml.includes\<close> throws on \<^verbatim>\<open>undefined\<close>, which is \<open>None\<close> here.
\<close>

definition cloneMarkup :: "state \<Rightarrow> string option \<Rightarrow> string option" where
  \<open>cloneMarkup s adHtml =
     (if banners s \<noteq> [] \<and> adConfigBanners s \<noteq> None \<and> adConfigBanners s \<noteq> Some [] \<and> adHtml = None
      then None
      else (let bannerObj =
                  (if banners s \<noteq> [] \<and> adConfigBanners s \<noteq> None
                   then find (\<lambda>b. stringIncludes (toString adHtml) (toString (imageUrl b)))
                          (the (adConfigBanners s))
                   else None)
            in case bannerObj of
                 None \<Rightarrow> Some (toString adHtml)
               | Some b \<Rightarrow>
                   if truthy (targetUrl b)
                   then Some (''<a href="'' @ toString (targetUrl b)
                              @ ''" target="_blank" rel="noopener noreferrer">''
                              @ toString adHtml @ ''</a>'')
                   else Some (toString adHtml)))\<close>

text \<open>
  The second half of \<open>sendAd\<close> for a generic container whose wrapper is the child at
  \<open>wpos\<close>: the next ad is drawn and injected, through a clone of the configured sibling
  or with the style of a visible sibling.
\<close>

definition fillAd :: "env \<Rightarrow> string list \<Rightarrow> nat \<Rightarrow> nat \<Rightarrow> state \<Rightarrow> outcome" where
  "fillAd e adHtmlArr container wpos s0 =
     (let ks = childNodes (page s0 container);
          siblings = filter (\<lambda>j. j \<noteq> wpos \<and> isElement (ks ! j) \<and> \<not> isAd (ks ! j)) [0..<length ks];
          (adHtml, s) = getNextAd e container adHtmlArr s0
      in if truthy (copySiblingSelector s)
         then (case querySelector e (the (copySiblingSelector s)) (page s container) of
                 None \<Rightarrow> Threw SyntaxError s
               | Some customRef \<Rightarrow>
                   (case (case customRef of None \<Rightarrow> None | Some path \<Rightarrow> getAt path ks) of
                      Some (Element rt rcs rid ra rks) \<Rightarrow>
                        (case cloneMarkup s adHtml of
                           None \<Rightarrow> Threw TypeError s
                         | Some html \<Rightarrow>
                             (let clone = Element rt rcs (if rid \<noteq> [] then rid @ ''-ad'' else []) ra
                                            (parseHTML e html)
                              in finishAd e container wpos
                                   (updateAt [wpos] (setChildNodes [clone]) ks) s))
                    | _ \<Rightarrow> finishAd e container wpos ks s))
         else (let ks1 = replicateSiblingStyles e wpos siblings ks;
                   ks2 = updateAt [wpos] (setChildNodes (parseHTML e (toString adHtml))) ks1
               in finishAd e container wpos ks2 s))"

text \<open>The preset slot branch of \<open>sendAd\<close>.\<close>

definition sendAdSlot :: "env \<Rightarrow> string list \<Rightarrow> nat \<Rightarrow> state \<Rightarrow> state" where
  "sendAdSlot e adHtmlArr container s0 =
     (let ks = childNodes (page s0 container);
          (adWrapper, ks1) = (case findFirst isAd ks of
                                None \<Rightarrow> ([0], [newAdWrapper])
                              | Some p \<Rightarrow> (p, ks));
          (adHtml, s) = getNextAd e container adHtmlArr s0;
          ks2 = updateAt adWrapper (setChildNodes (parseHTML e (toString adHtml))) ks1
      in s\<lparr>page := (page s)(container := setChildNodes ks2 (page s container))\<rparr>)"

text \<open>
  \<^verbatim>\<open>sendAd(adHtmlArr, container, isFirstLoad)\<close>. A handle that denotes no element
  cannot come out of the selector engine; the model leaves the state alone there.
  The only tree written is the one of \<open>container\<close>: matched containers are separate.
\<close>

definition sendAd :: "env \<Rightarrow> string list \<Rightarrow> nat \<Rightarrow> bool \<Rightarrow> state \<Rightarrow> outcome" where
  "sendAd e adHtmlArr container isFirstLoad s =
     (case page s container of
        Text txt \<Rightarrow> Returned s
      | Element t cs i a ks \<Rightarrow>
          if isSlot (Element t cs i a ks) then Returned (sendAdSlot e adHtmlArr container s)
          else
            (let adWrapper = findFirst isAd ks;
                 children = nonAdChildren ks
             in if length children < 3 then Returned s
                else (case chooseIndex e a (length children) (draws s) of
                        (None, a', p) \<Rightarrow> Returned (s\<lparr>draws := p\<rparr>)
                      | (Some idx, a', p) \<Rightarrow>
                          (let refPos = children ! idx;
                               (ks1, wpos) = placeWrapper adWrapper refPos ks;
                               s0 = s\<lparr>draws := p, page := (page s)(container := Element t cs i a' ks1)\<rparr>
                           in fillAd e adHtmlArr container wpos s0))))"

section \<open>Banner fetching and rotation\<close>

text \<open>The markup of one configured banner, the empty string when it has no image URL.\<close>

definition bannerMarkup :: "banner \<Rightarrow> string" where
  \<open>bannerMarkup b =
     (if truthy (imageUrl b) \<and> truthy (targetUrl b)
      then ''<a href="'' @ toString (targetUrl b)
           @ ''" target="_blank" rel="noopener noreferrer"><img src="'' @ toString (imageUrl b)
           @ ''" alt="ad" class="ad-img-anim" style="max-width:100%;height:auto;display:block;" /></a>''
      else if truthy (imageUrl b)
      then ''<img src="'' @ toString (imageUrl b)
           @ ''" alt="ad" class="ad-img-anim" style="max-width:100%;height:auto;display:block;" />''
      else [])\<close>

text \<open>
  The selectors taken from \<^verbatim>\<open>config.containers\<close>: when the first entry is an object with a
  name, the names of all entries, without the missing and empty ones.
\<close>

definition entryName :: "selector_entry \<Rightarrow> string option" where
  "entryName c = (case c of SelectorString str \<Rightarrow> None | SelectorObject n \<Rightarrow> n)"

definition selectorsOf :: "selector_entry list option \<Rightarrow> selector_entry list" where
  "selectorsOf cs =
     (let containerSelectors = (case cs of None \<Rightarrow> [] | Some l \<Rightarrow> l)
      in if containerSelectors \<noteq> [] \<and> truthy (entryName (hd containerSelectors))
         then map (\<lambda>n. SelectorString (toString n)) (filter truthy (map entryName containerSelectors))
         else containerSelectors)"

definition fetchFailed :: string where
  "fetchFailed = ''[AdSend] Failed to load ad-config.json:''"

text \<open>
  \<^verbatim>\<open>fetchAllBannersFromFile()\<close>, from the arrival of the response on: the function
  touches no variable before. For a document of the shape above the only exceptions in
  the \<^verbatim>\<open>try\<close> block are the rejected \<^verbatim>\<open>fetch\<close> and the rejected \<^verbatim>\<open>res.json()\<close>.
\<close>

definition fetchAllBannersFromFile :: "env \<Rightarrow> state \<Rightarrow> state" where
  "fetchAllBannersFromFile e s0 =
     (let s = s0\<lparr>fetches := Suc (fetches s0)\<rparr>
      in case network e (fetches s0) of
           NetworkError \<Rightarrow> s\<lparr>console := console s @ [fetchFailed]\<rparr>
         | Response ok body \<Rightarrow>
             if \<not> ok then s
             else (case body of
                     MalformedJSON \<Rightarrow> s\<lparr>console := console s @ [fetchFailed]\<rparr>
                   | ParsedJSON configs \<Rightarrow>
                       (case (case configs of
                                NotAnArray \<Rightarrow> None
                              | ConfigArray cfgs \<Rightarrow>
                                  find (\<lambda>cfg. cfg_property_id cfg \<noteq> None
                                              \<and> cfg_property_id cfg = propertyId e) cfgs) of
                          None \<Rightarrow> s
                        | Some config \<Rightarrow>
                            (let configBanners = (case cfg_banners config of None \<Rightarrow> [] | Some bs \<Rightarrow> bs);
                                 s1 = s\<lparr>adConfigBanners := Some configBanners\<rparr>
                             in if truthy (cfg_url config)
                                   \<and> \<not> startsWith (pageUrl e) (toString (cfg_url config))
                                then s1
                                else s1\<lparr>containerSelectors := selectorsOf (cfg_containers config),
                                        banners := filter (\<lambda>h. h \<noteq> []) (map bannerMarkup configBanners),
                                        copySiblingSelector :=
                                          (if truthy (cfg_copySiblingSelector config)
                                           then cfg_copySiblingSelector config else None),
                                        bannerIndex := 0,
                                        rotationOffset := randomIndex (mathRandom e) (draws s1) 1000,
                                        draws := Suc (draws s1)\<rparr>))))"

text \<open>
  \<^verbatim>\<open>document.querySelectorAll\<close> over the configured selectors, concatenated; \<open>None\<close> when
  a selector makes the engine throw. An entry that is an object reaches the engine as
  the string \<^verbatim>\<open>[object Object]\<close>.
\<close>

definition selectorString :: "selector_entry \<Rightarrow> string" where
  "selectorString c = (case c of SelectorString str \<Rightarrow> str | SelectorObject n \<Rightarrow> ''[object Object]'')"

fun queryAll :: "env \<Rightarrow> selector_entry list \<Rightarrow> (nat \<Rightarrow> node) \<Rightarrow> nat list \<Rightarrow> nat list option" where
  "queryAll e [] pg allContainers = Some allContainers"
| "queryAll e (selector # rest) pg allContainers =
     (case querySelectorAll e (selectorString selector) pg of
        None \<Rightarrow> None
      | Some found \<Rightarrow> queryAll e rest pg (allContainers @ found))"

text \<open>\<^verbatim>\<open>containers.forEach(c => sendAd(banners, c, isFirstLoad))\<close>\<close>

fun forEachSendAd :: "env \<Rightarrow> bool \<Rightarrow> nat list \<Rightarrow> state \<Rightarrow> outcome" where
  "forEachSendAd e isFirstLoad [] s = Returned s"
| "forEachSendAd e isFirstLoad (c # cs) s =
     (case sendAd e (banners s) c isFirstLoad s of
        Threw x s1 \<Rightarrow> Threw x s1
      | Returned s1 \<Rightarrow> forEachSendAd e isFirstLoad cs s1)"

definition noSelectorsRotate :: string where
  "noSelectorsRotate = ''[ad-injector] No container selectors found for this page. Please define at least one container/selector.''"

definition rotateAdSlots :: "env \<Rightarrow> state \<Rightarrow> outcome" where
  "rotateAdSlots e s =
     (if banners s = [] then Returned s
      else if containerSelectors s = [] then Returned (s\<lparr>console := console s @ [noSelectorsRotate]\<rparr>)
      else case queryAll e (containerSelectors s) (page s) [] of
             None \<Rightarrow> Threw SyntaxError s
           | Some allContainers \<Rightarrow>
               if allContainers = [] then Returned s
               else (let (shuffledContainers, p) = shuffle (mathRandom e) allContainers (draws s)
                     in forEachSendAd e False shuffledContainers (s\<lparr>draws := p\<rparr>)))"

section \<open>Initialization\<close>

definition noSelectorsInit :: string where
  "noSelectorsInit = ''[AdSend] No container selectors found for this page. Please define at least one container/selector in ad-config.json.''"

text \<open>
  \<^verbatim>\<open>initAdInjector()\<close>. A thrown exception rejects the promise of the \<^verbatim>\<open>async\<close>
  function; the statements after it do not run.
\<close>

definition initAdInjector :: "env \<Rightarrow> state \<Rightarrow> outcome" where
  "initAdInjector e s0 =
     (let s = fetchAllBannersFromFile e s0
      in if containerSelectors s = [] then Returned (s\<lparr>console := console s @ [noSelectorsInit]\<rparr>)
         else case queryAll e (containerSelectors s) (page s) [] of
                None \<Rightarrow> Threw SyntaxError s
              | Some allContainers \<Rightarrow>
                  (case (if banners s \<noteq> [] \<and> allContainers \<noteq> []
                         then (let (shuffled, p) = shuffle (mathRandom e) allContainers (draws s)
                               in forEachSendAd e True shuffled (s\<lparr>draws := p\<rparr>))
                         else Returned s) of
                     Threw x s1 \<Rightarrow> Threw x s1
                   | Returned s1 \<Rightarrow>
                       if length (banners s1) > 1
                       then Returned (s1\<lparr>timers := timers s1 @ [(RotateAdSlots, 10000),
                                                                 (FetchAllBannersFromFile, 5 * 60 * 1000)]\<rparr>)
                       else Returned s1))"

text \<open>What a tick of a registered timer runs.\<close>

definition timerTick :: "env \<Rightarrow> timer_callback \<Rightarrow> state \<Rightarrow> outcome" where
  "timerTick e cb s =
     (case cb of RotateAdSlots \<Rightarrow> rotateAdSlots e s
               | FetchAllBannersFromFile \<Rightarrow> Returned (fetchAllBannersFromFile e s))"

text \<open>
  The state when the script is loaded on a page: empty queues, no banners, no
  selectors, \<^verbatim>\<open>rotationOffset\<close> drawn once.
\<close>

definition initialState :: "env \<Rightarrow> (nat \<Rightarrow> node) \<Rightarrow> state" where
  "initialState e pg =
     \<lparr>adQueues = (\<lambda>c. None), adRotationQueue = [], banners = [], bannerIndex = 0,
      containerSelectors = [], rotationOffset = randomIndex (mathRandom e) 0 1000,
      copySiblingSelector = None, adConfigBanners = None, page = pg, draws = 1, fetches = 0,
      console = [], timers = []\<rparr>"

text \<open>The script as a whole: without a \<^verbatim>\<open>data-property\<close> attribute nothing is initialized.\<close>

definition adSend :: "env \<Rightarrow> (nat \<Rightarrow> node) \<Rightarrow> outcome" where
  "adSend e pg =
     (if \<not> truthy (propertyId e) then Returned (initialState e pg)
      else initAdInjector e (initialState e pg))"

text \<open>The queue of a container, empty when the \<^verbatim>\<open>WeakMap\<close> has no entry.\<close>

definition queueOf :: "state \<Rightarrow> nat \<Rightarrow> string list" where
  "queueOf s c = (case adQueues s c of None \<Rightarrow> [] | Some q \<Rightarrow> q)"

text \<open>
  Every block of \<open>length bs\<close> results holds no banner more often than the banner list
  does, and a complete block holds exactly the banner list.
\<close>

definition fairCycles :: "string list \<Rightarrow> string option list \<Rightarrow> bool" where
  "fairCycles bs out = (\<forall>k. mset (cycle (length bs) k out) \<subseteq># mset (map Some bs) \<and>
      ((k + 1) * length bs \<le> length out \<longrightarrow> mset (cycle (length bs) k out) = mset (map Some bs)))"

section \<open>A small page for concrete runs\<close>

definition demoEnv :: env where
  "demoEnv = \<lparr>mathRandom = (\<lambda>n. n), network = (\<lambda>n. NetworkError), propertyId = Some ''site'',
     pageUrl = ''http://h/p'', parseHTML = (\<lambda>h. [Text h]), querySelectorAll = (\<lambda>sel pg. Some [0]),
     querySelector = (\<lambda>sel c. Some None), displayNone = (\<lambda>n. False)\<rparr>"

definition demoState :: state where
  "demoState = \<lparr>adQueues = (\<lambda>c. None), adRotationQueue = [], banners = [], bannerIndex = 0,
     containerSelectors = [], rotationOffset = 0, copySiblingSelector = None,
     adConfigBanners = None, page = (\<lambda>h. Element ''div'' [] [] None []), draws = 0, fetches = 0,
     console = [], timers = []\<rparr>"

section \<open>Wrappers of a container\<close>

text \<open>
  The ad wrappers a container owns are its child elements with the wrapper class. A
  child list is wrapper-free when no element below it, at any depth, has that class;
  it owns one wrapper when one child has the class and nothing else below the
  container has.
\<close>

definition adWrappers :: "node \<Rightarrow> nat" where
  "adWrappers c = length (filter isAd (childNodes c))"

definition wrapperFree :: "node list \<Rightarrow> bool" where
  "wrapperFree ks = (findFirst isAd ks = None)"

definition ownsOneWrapper :: "node list \<Rightarrow> bool" where
  "ownsOneWrapper ks = (\<exists>A w B. ks = A @ w # B \<and> isAd w \<and> wrapperFree A \<and> wrapperFree B)"

text \<open>The containers in which \<open>sendAd\<close> places an ad.\<close>

definition eligible :: "node \<Rightarrow> bool" where
  "eligible c = (isSlot c \<or> 3 \<le> length (nonAdChildren (childNodes c)))"

definition settled :: "bool \<Rightarrow> node \<Rightarrow> bool" where
  "settled b c = (\<exists>t cs i a ks. c = Element t cs i a ks \<and> eligible c = b \<and>
                    (if b then ownsOneWrapper ks else wrapperFree ks))"

definition tidyNode :: "node \<Rightarrow> bool" where
  "tidyNode c = (\<exists>t cs i a ks. c = Element t cs i a ks \<and> (wrapperFree ks \<or> ownsOneWrapper ks))"

text \<open>A sequence of timer ticks; an exception thrown by one tick does not stop the next.\<close>

fun runTicks :: "env \<Rightarrow> timer_callback list \<Rightarrow> state \<Rightarrow> state" where
  "runTicks e [] s = s"
| "runTicks e (cb # cbs) s = runTicks e cbs (stateOf (timerTick e cb s))"

text \<open>The variables that \<open>sendAd\<close> never writes.\<close>

definition sameConfig :: "state \<Rightarrow> state \<Rightarrow> bool" where
  "sameConfig s s' = (banners s' = banners s \<and> timers s' = timers s \<and>
     containerSelectors s' = containerSelectors s \<and> copySiblingSelector s' = copySiblingSelector s \<and>
     adConfigBanners s' = adConfigBanners s \<and> console s' = console s \<and> fetches s' = fetches s \<and>
     adRotationQueue s' = adRotationQueue s \<and> bannerIndex s' = bannerIndex s \<and>
     rotationOffset s' = rotationOffset s)"

text \<open>The two \<^verbatim>\<open>setInterval\<close> registrations of \<open>initAdInjector\<close>.\<close>

definition twoTimers :: "(timer_callback \<times> nat) list" where
  "twoTimers = [(RotateAdSlots, 10000), (FetchAllBannersFromFile, 5 * 60 * 1000)]"

fun isReturned :: "outcome \<Rightarrow> bool" where
  "isReturned (Returned s) = True"
| "isReturned (Threw x s) = False"

text \<open>
  Configurations, environments and states for concrete runs: a site with given selectors
  and banners, a server that answers every fetch with one configuration, a server that
  answers with an error status, a page of empty containers, and a state in the middle
  of a rotation over two banners.
\<close>

definition imageBanner :: "string \<Rightarrow> banner" where
  "imageBanner u = \<lparr>imageUrl = Some u, targetUrl = None\<rparr>"

definition siteConfig :: "selector_entry list \<Rightarrow> banner list \<Rightarrow> propertyConfig" where
  "siteConfig sels bs = \<lparr>cfg_property_id = Some ''site'', cfg_url = None, cfg_containers = Some sels,
     cfg_banners = Some bs, cfg_copySiblingSelector = None\<rparr>"

definition serving :: "propertyConfig \<Rightarrow> env" where
  "serving cfg = demoEnv\<lparr>network := (\<lambda>n. Response True (ParsedJSON (ConfigArray [cfg])))\<rparr>"

definition notOk :: env where
  "notOk = demoEnv\<lparr>network := (\<lambda>n. Response False MalformedJSON)\<rparr>"

definition emptyPage :: "nat \<Rightarrow> node" where
  "emptyPage = (\<lambda>h. Element ''div'' [] [] None [])"

definition staleState :: state where
  "staleState = demoState\<lparr>banners := [''old1'', ''old2''], adQueues := (\<lambda>c. None)(0 \<mapsto> [''old1'']),
     adRotationQueue := [''old2'']\<rparr>"

definition newConfig :: propertyConfig where
  "newConfig = siteConfig [SelectorString ''.box''] [imageBanner ''new'']"

definition fourChildren :: "string option \<Rightarrow> node" where
  "fourChildren attr = Element ''div'' [''box''] [] attr
     [Element ''p'' [] [] None [], Text ''and'', Element ''p'' [] [] None [],
      Element ''p'' [] [] None [], Element ''p'' [] [] None []]"

text \<open>
  A container with a second container as its middle child, as it is once the inner one
  has received its wrapper.
\<close>

definition innerPlaced :: node where
  "innerPlaced = Element ''div'' [''box''] [] (Some ''1'')
     [Element ''p'' [] [] None [], Element ''p'' [] [] None [], newAdWrapper,
      Element ''p'' [] [] None []]"

definition nestedContainers :: node where
  "nestedContainers = Element ''div'' [''box''] [] None
     [Element ''p'' [] [] None [], innerPlaced, Element ''p'' [] [] None []]"

definition twoChildren :: node where
  "twoChildren = Element ''div'' [''box''] [] None
     [Element ''p'' [] [] None [], Text ''and'', Element ''p'' [] [] None []]"

definition onPage :: "node \<Rightarrow> state" where
  "onPage c = demoState\<lparr>page := (\<lambda>h. c), banners := [''ad1'', ''ad2''],
     containerSelectors := [SelectorString ''.box'']\<rparr>"

section \<open>Properties of shuffle\<close>

lemma randomIndex_less: "0 < k \<Longrightarrow> randomIndex rnd p k < k"
  by (simp add: randomIndex_def)

lemma shuffle_loop_mset:
  "m \<le> length array \<Longrightarrow> mset (fst (shuffle_loop rnd m array p)) = mset array"
proof (induction m arbitrary: array p)
  case 0
  then show ?case by simp
next
  case (Suc m)
  define i where "i = randomIndex rnd p (Suc m)"
  have i: "i < length array"
    using randomIndex_less [of "Suc m" rnd p] Suc.prems by (simp add: i_def)
  have m: "m < length array" using Suc.prems by simp
  have swap: "mset (array[m := array ! i, i := array ! m]) = mset array"
    using i m by (simp add: mset_swap)
  have "mset (fst (shuffle_loop rnd m (array[m := array ! i, i := array ! m]) (Suc p)))
        = mset (array[m := array ! i, i := array ! m])"
    using Suc.prems by (intro Suc.IH) simp
  then show ?case by (simp add: Let_def i_def [symmetric] swap)
qed

lemma shuffle_loop_pos: "snd (shuffle_loop rnd m array p) = p + m"
  by (induction m arbitrary: array p) (simp_all add: Let_def)

lemma shuffle_mset: "mset (fst (shuffle rnd array p)) = mset array"
  by (simp add: shuffle_def shuffle_loop_mset)

text \<open>
  C9. For every input array and every outcome of the random draws, \<open>shuffle\<close> returns a
  permutation of the array: same multiset of elements, same length, same set.
\<close>

theorem shuffle_permutation:
  "mset (fst (shuffle rnd array p)) = mset array \<and>
   length (fst (shuffle rnd array p)) = length array \<and>
   set (fst (shuffle rnd array p)) = set array"
proof -
  have m: "mset (fst (shuffle rnd array p)) = mset array" by (rule shuffle_mset)
  from m have "length (fst (shuffle rnd array p)) = length array" by (rule mset_eq_length)
  moreover from m have "set (fst (shuffle rnd array p)) = set array" by (rule mset_eq_setD)
  ultimately show ?thesis using m by simp
qed

section \<open>The per-container queue\<close>

lemma getNextAd_nonempty:
  "adQueues s c = Some (x # q) \<Longrightarrow>
   getNextAd e c bs s = (Some x, s\<lparr>adQueues := (adQueues s)(c \<mapsto> q)\<rparr>)"
  by (simp add: getNextAd_def)

lemma getNextAd_refill:
  assumes "adQueues s c = None \<or> adQueues s c = Some []" and "bs \<noteq> []"
  shows "\<exists>x rest s1. getNextAd e c bs s = (Some x, s1) \<and> adQueues s1 c = Some rest \<and>
           mset (x # rest) = mset bs"
proof -
  obtain sh p where sh: "shuffle (mathRandom e) bs (draws s) = (sh, p)" by fastforce
  have m: "mset sh = mset bs" using shuffle_mset [of "mathRandom e" bs "draws s"] sh by simp
  with assms(2) have "sh \<noteq> []" by auto
  then obtain x rest where xr: "sh = x # rest" by (cases sh) auto
  show ?thesis using assms(1) sh xr m by (auto simp: getNextAd_def)
qed

lemma getNextAd_other:
  "c' \<noteq> c \<Longrightarrow> adQueues (snd (getNextAd e c' bs s)) c = adQueues s c"
  by (auto simp: getNextAd_def Let_def split: prod.splits list.splits)

lemma cycle_short:
  assumes "length xs \<le> n" shows "cycle n k xs = (if k = 0 then xs else [])"
proof (cases k)
  case 0 then show ?thesis using assms by (simp add: cycle_def)
next
  case (Suc j)
  have "n \<le> Suc j * n" by simp
  with assms have "length xs \<le> Suc j * n" by (rule le_trans)
  then show ?thesis using Suc by (simp add: cycle_def)
qed

lemma cycle_append:
  assumes "length xs = n"
  shows "cycle n k (xs @ ys) = (case k of 0 \<Rightarrow> xs | Suc j \<Rightarrow> cycle n j ys)"
  using assms by (cases k) (simp_all add: cycle_def)

lemma fairCycles_prefix:
  assumes "mset sh = mset bs" and "m \<le> length bs"
  shows "fairCycles bs (map Some (take m sh))"
proof -
  have len: "length sh = length bs" using assms(1) by (rule mset_eq_length)
  have sub: "mset (map Some (take m sh)) \<subseteq># mset (map Some bs)"
  proof -
    have "mset (take m sh) \<subseteq># mset sh"
      by (metis append_take_drop_id mset_append mset_subset_eq_add_left)
    then have "image_mset Some (mset (take m sh)) \<subseteq># image_mset Some (mset sh)"
      by (rule image_mset_subseteq_mono)
    then show ?thesis using assms(1) by simp
  qed
  have short: "length (map Some (take m sh)) \<le> length bs" using assms(2) by simp
  show ?thesis
    unfolding fairCycles_def
  proof (intro allI conjI impI)
    fix k
    show "mset (cycle (length bs) k (map Some (take m sh))) \<subseteq># mset (map Some bs)"
      using sub by (simp add: cycle_short [OF short])
  next
    fix k
    assume full: "(k + 1) * length bs \<le> length (map Some (take m sh))"
    have "length bs \<le> (k + 1) * length bs" by simp
    with full have "length bs \<le> length (map Some (take m sh))" by linarith
    with assms(2) len have m: "m = length sh" by simp
    show "mset (cycle (length bs) k (map Some (take m sh))) = mset (map Some bs)"
    proof (cases k)
      case 0
      then show ?thesis using m assms(1) len by (simp add: cycle_def)
    next
      case (Suc j)
      have "(k + 1) * length bs = length bs + length bs + j * length bs" using Suc by simp
      with full have "length bs + length bs \<le> length sh" using m by simp
      with len have "length bs = 0" by simp
      then show ?thesis using len by (simp add: cycle_def)
    qed
  qed
qed

lemma fairCycles_append:
  assumes "mset sh = mset bs" and "fairCycles bs out"
  shows "fairCycles bs (map Some sh @ out)"
proof -
  have len: "length (map Some sh) = length bs" using mset_eq_length [OF assms(1)] by simp
  have eq: "mset (map Some sh) = mset (map Some bs)" using assms(1) by simp
  show ?thesis
    unfolding fairCycles_def
  proof (intro allI conjI impI)
    fix k
    show "mset (cycle (length bs) k (map Some sh @ out)) \<subseteq># mset (map Some bs)"
      using assms(2) eq by (cases k) (simp_all add: cycle_append [OF len] fairCycles_def)
  next
    fix k
    assume full: "(k + 1) * length bs \<le> length (map Some sh @ out)"
    show "mset (cycle (length bs) k (map Some sh @ out)) = mset (map Some bs)"
    proof (cases k)
      case 0
      then show ?thesis using eq by (simp add: cycle_append [OF len])
    next
      case (Suc j)
      from full len Suc have "(j + 1) * length bs \<le> length out" by simp
      with assms(2) have "mset (cycle (length bs) j out) = mset (map Some bs)"
        by (simp add: fairCycles_def)
      then show ?thesis using Suc by (simp add: cycle_append [OF len])
    qed
  qed
qed

lemma runEvents_queue:
  assumes "bs \<noteq> []"
  shows "(length (returnedFor c (fst (runEvents e bs evs s))) \<le> length (queueOf s c) \<and>
          returnedFor c (fst (runEvents e bs evs s)) =
            map Some (take (length (returnedFor c (fst (runEvents e bs evs s)))) (queueOf s c))) \<or>
         (\<exists>out'. returnedFor c (fst (runEvents e bs evs s)) = map Some (queueOf s c) @ out' \<and>
                  fairCycles bs out')"
  (is "?short evs s \<or> ?long evs s")
proof (induction evs arbitrary: s)
  case Nil
  then show ?case by (simp add: returnedFor_def)
next
  case (Cons ev evs)
  show ?case
  proof (cases ev)
    case OtherRandom
    have q: "queueOf (s\<lparr>draws := Suc (draws s)\<rparr>) c = queueOf s c" by (simp add: queueOf_def)
    show ?thesis using Cons.IH [of "s\<lparr>draws := Suc (draws s)\<rparr>"] OtherRandom q by simp
  next
    case (GetNextAd c')
    obtain ad s1 where g: "getNextAd e c' bs s = (ad, s1)" by fastforce
    obtain ads s2 where r: "runEvents e bs evs s1 = (ads, s2)" by fastforce
    have run: "fst (runEvents e bs (ev # evs) s) = (c', ad) # ads"
      using GetNextAd g r by simp
    show ?thesis
    proof (cases "c' = c")
      case False
      have "queueOf s1 c = queueOf s c"
        using getNextAd_other [OF False, of e bs s] g by (simp add: queueOf_def)
      moreover have "returnedFor c ((c', ad) # ads) = returnedFor c ads"
        using False by (simp add: returnedFor_def)
      ultimately show ?thesis using Cons.IH [of s1] r run by simp
    next
      case True
      have out: "returnedFor c ((c', ad) # ads) = ad # returnedFor c ads"
        using True by (simp add: returnedFor_def)
      show ?thesis
      proof (cases "queueOf s c")
        case (Cons x q)
        then have aq: "adQueues s c = Some (x # q)"
          by (simp add: queueOf_def split: option.splits)
        have "ad = Some x" and "queueOf s1 c = q"
          using getNextAd_nonempty [OF aq, of e bs] g True by (auto simp: queueOf_def)
        then show ?thesis
          using Cons.IH [of s1] r run out Cons by auto
      next
        case Nil
        then have aq: "adQueues s c = None \<or> adQueues s c = Some []"
          by (simp add: queueOf_def split: option.splits)
        from getNextAd_refill [OF aq assms, of e]
        obtain x rest where ad: "ad = Some x" and q1: "queueOf s1 c = rest"
          and m: "mset (x # rest) = mset bs"
          using g True by (auto simp: queueOf_def)
        have len: "length (x # rest) = length bs" using m by (rule mset_eq_length)
        from Cons.IH [of s1] r
        have "?short evs s1 \<or> ?long evs s1" by simp
        then have "fairCycles bs (ad # returnedFor c ads)"
        proof
          assume sh: "?short evs s1"
          define n where "n = length (returnedFor c ads)"
          from sh r q1 have n: "n \<le> length rest" and eq: "returnedFor c ads = map Some (take n rest)"
            by (simp_all add: n_def)
          have "ad # returnedFor c ads = map Some (take (Suc n) (x # rest))"
            using ad eq by simp
          moreover have "Suc n \<le> length bs" using n len by simp
          ultimately show ?thesis using fairCycles_prefix [OF m, of "Suc n"] by simp
        next
          assume "?long evs s1"
          then obtain out' where "returnedFor c ads = map Some rest @ out'" and f: "fairCycles bs out'"
            using r q1 by auto
          then have "ad # returnedFor c ads = map Some (x # rest) @ out'" using ad by simp
          then show ?thesis using fairCycles_append [OF m f] by simp
        qed
        then show ?thesis using run out Nil by simp
      qed
    qed
  qed
qed

lemma sub_distinct:
  assumes "mset xs \<subseteq># mset ys" and "distinct ys" shows "distinct xs"
proof -
  have "count (mset xs) a \<le> 1" for a
  proof -
    have "count (mset xs) a \<le> count (mset ys) a" using assms(1) by (rule mset_subset_eq_count)
    also have "\<dots> \<le> 1" using assms(2) by (simp add: distinct_count_atmost_1)
    finally show ?thesis .
  qed
  then show ?thesis
    unfolding distinct_count_atmost_1 [of xs]
    by (metis count_mset_0_iff le_antisym less_one not_le_imp_less not_less_iff_gr_or_eq)
qed

text \<open>
  C1. A non-empty queue is never refilled: \<open>getNextAd\<close> then only removes its head. So,
  from an empty or absent queue and with a non-empty banner list, whatever other
  containers and other random draws come in between, the results for one container
  fall into cycles of \<open>length bs\<close> draws: no cycle returns a banner more often than the
  list holds it, every complete cycle returns exactly the banners of the list, and with
  pairwise different banners no cycle returns a banner twice.
\<close>

theorem getNextAd_cycles:
  assumes "bs \<noteq> []"
    and "adQueues s c = None \<or> adQueues s c = Some []"
  shows "(\<forall>x q s0. adQueues s0 c = Some (x # q) \<longrightarrow>
            getNextAd e c bs s0 = (Some x, s0\<lparr>adQueues := (adQueues s0)(c \<mapsto> q)\<rparr>)) \<and>
         (\<forall>k. mset (cycle (length bs) k (returnedFor c (fst (runEvents e bs evs s))))
                 \<subseteq># mset (map Some bs) \<and>
              ((k + 1) * length bs \<le> length (returnedFor c (fst (runEvents e bs evs s))) \<longrightarrow>
                 mset (cycle (length bs) k (returnedFor c (fst (runEvents e bs evs s))))
                 = mset (map Some bs)) \<and>
              (distinct bs \<longrightarrow>
                 distinct (cycle (length bs) k (returnedFor c (fst (runEvents e bs evs s))))))"
proof -
  have q: "queueOf s c = []" using assms(2) by (auto simp: queueOf_def)
  have "fairCycles bs (returnedFor c (fst (runEvents e bs evs s)))"
    using runEvents_queue [OF assms(1), of c e evs s] q fairCycles_prefix [of bs bs 0]
    by auto
  then have f: "\<And>k. mset (cycle (length bs) k (returnedFor c (fst (runEvents e bs evs s))))
                 \<subseteq># mset (map Some bs) \<and>
              ((k + 1) * length bs \<le> length (returnedFor c (fst (runEvents e bs evs s))) \<longrightarrow>
                 mset (cycle (length bs) k (returnedFor c (fst (runEvents e bs evs s))))
                 = mset (map Some bs))"
    by (simp add: fairCycles_def)
  have d: "distinct (cycle (length bs) k (returnedFor c (fst (runEvents e bs evs s))))"
    if "distinct bs" for k
  proof -
    have "distinct (map Some bs)" using that by (simp add: distinct_map)
    with f [of k] show ?thesis using sub_distinct by blast
  qed
  show ?thesis using f d by (simp add: getNextAd_nonempty)
qed


theorem getNextAd_cycles_witness:
  "[''a'', ''b''] \<noteq> [] \<and>
   (adQueues demoState 0 = None \<or> adQueues demoState 0 = Some []) \<and>
   returnedFor 0 (fst (runEvents demoEnv [''a'', ''b'']
      [GetNextAd 0, OtherRandom, GetNextAd 1, GetNextAd 0, GetNextAd 0, GetNextAd 0] demoState))
     = [Some ''b'', Some ''a'', Some ''a'', Some ''b''] \<and>
   mset (cycle (length [''a'', ''b'']) 1 (returnedFor 0 (fst (runEvents demoEnv [''a'', ''b'']
      [GetNextAd 0, OtherRandom, GetNextAd 1, GetNextAd 0, GetNextAd 0, GetNextAd 0] demoState))))
     = mset (map Some [''a'', ''b''])"
proof -
  have h1: "[''a'', ''b''] \<noteq> []" by simp
  have h2: "adQueues demoState 0 = None \<or> adQueues demoState 0 = Some []"
    by (simp add: demoState_def)
  have run: "returnedFor 0 (fst (runEvents demoEnv [''a'', ''b'']
      [GetNextAd 0, OtherRandom, GetNextAd 1, GetNextAd 0, GetNextAd 0, GetNextAd 0] demoState))
     = [Some ''b'', Some ''a'', Some ''a'', Some ''b'']"
    by code_simp
  from getNextAd_cycles [OF h1 h2, of demoEnv
      "[GetNextAd 0, OtherRandom, GetNextAd 1, GetNextAd 0, GetNextAd 0, GetNextAd 0]"]
  have "mset (cycle (length [''a'', ''b'']) 1 (returnedFor 0 (fst (runEvents demoEnv [''a'', ''b'']
      [GetNextAd 0, OtherRandom, GetNextAd 1, GetNextAd 0, GetNextAd 0, GetNextAd 0] demoState))))
     = mset (map Some [''a'', ''b''])"
    unfolding run by simp
  with h1 h2 run show ?thesis by simp
qed

section \<open>What sendAd leaves alone\<close>

lemma sameConfig_refl: "sameConfig s s"
  by (simp add: sameConfig_def)

lemma sameConfig_trans: "sameConfig s s1 \<Longrightarrow> sameConfig s1 s2 \<Longrightarrow> sameConfig s s2"
  by (simp add: sameConfig_def)

lemma getNextAd_sameConfig: "sameConfig s (snd (getNextAd e c bs s))"
  by (simp add: getNextAd_def sameConfig_def Let_def split: prod.splits list.splits)

lemma getNextAd_page: "page (snd (getNextAd e c bs s)) = page s"
  by (simp add: getNextAd_def Let_def split: prod.splits list.splits)

lemma finishAd_sameConfig: "sameConfig s (stateOf (finishAd e c wpos ks s))"
  by (simp add: finishAd_def sameConfig_def Let_def split: prod.splits)

lemma fillAd_sameConfig: "sameConfig s (stateOf (fillAd e bs c wpos s))"
proof -
  obtain ad s1 where g: "getNextAd e c bs s = (ad, s1)" by fastforce
  have s1: "sameConfig s s1" using getNextAd_sameConfig [of s e c bs] g by simp
  have f: "sameConfig s (stateOf (finishAd e c wpos ks s1))" for ks
    using sameConfig_trans [OF s1 finishAd_sameConfig] .
  show ?thesis
    using g s1 f
    by (simp add: fillAd_def Let_def split: option.splits node.splits)
qed

lemma sendAdSlot_sameConfig: "sameConfig s (sendAdSlot e bs c s)"
proof -
  obtain ad s1 where g: "getNextAd e c bs s = (ad, s1)" by fastforce
  have s1: "sameConfig s s1" using getNextAd_sameConfig [of s e c bs] g by simp
  then show ?thesis using g
    by (simp add: sendAdSlot_def Let_def sameConfig_def split: option.splits prod.splits)
qed

lemma sendAd_sameConfig: "sameConfig s (stateOf (sendAd e bs c fl s))"
proof (cases "page s c")
  case (Text t)
  then show ?thesis by (simp add: sendAd_def sameConfig_refl)
next
  case (Element t cs i a ks)
  have fill: "sameConfig s (stateOf (fillAd e bs c wpos (s\<lparr>draws := p, page := pg\<rparr>)))" for wpos p pg
    using fillAd_sameConfig [of "s\<lparr>draws := p, page := pg\<rparr>" e bs c wpos]
    by (simp add: sameConfig_def)
  show ?thesis
    using Element fill sendAdSlot_sameConfig [of s e bs c]
    by (simp add: sendAd_def Let_def sameConfig_refl split: prod.splits option.splits)
       (simp add: sameConfig_def)
qed

lemma forEachSendAd_sameConfig: "sameConfig s (stateOf (forEachSendAd e fl cs s))"
proof (induction cs arbitrary: s)
  case Nil
  then show ?case by (simp add: sameConfig_refl)
next
  case (Cons c cs)
  show ?case
  proof (cases "sendAd e (banners s) c fl s")
    case (Returned s1)
    have "sameConfig s s1" using sendAd_sameConfig [of s e "banners s" c fl] Returned by simp
    then show ?thesis using Cons.IH [of s1] Returned sameConfig_trans by auto
  next
    case (Threw x s1)
    then show ?thesis using sendAd_sameConfig [of s e "banners s" c fl] by simp
  qed
qed

text \<open>
  C4. On a generic (non-slot) container with fewer than three non-ad child elements
  \<open>sendAd\<close> returns at once: the whole state is as before, so no wrapper is created or
  inserted, the container is unchanged, no ad is drawn from its queue.
\<close>

theorem sendAd_skips_small_container:
  assumes "page s container = Element t cs i a ks"
    and "\<not> isSlot (page s container)"
    and "length (nonAdChildren ks) < 3"
  shows "sendAd e adHtmlArr container isFirstLoad s = Returned s"
  using assms by (simp add: sendAd_def Let_def)


lemma initAdInjector_cases:
  fixes e s0
  defines "s \<equiv> fetchAllBannersFromFile e s0"
  shows "(initAdInjector e s0 = Returned s' \<longrightarrow>
           timers s' = (if containerSelectors s \<noteq> [] \<and> 1 < length (banners s)
                        then timers s @ twoTimers else timers s)) \<and>
         (initAdInjector e s0 = Threw x s' \<longrightarrow> containerSelectors s \<noteq> [] \<and> timers s' = timers s)"
proof (cases "containerSelectors s = []")
  case True
  then show ?thesis by (auto simp: initAdInjector_def s_def [symmetric])
next
  case sel: False
  show ?thesis
  proof (cases "queryAll e (containerSelectors s) (page s) []")
    case None
    then show ?thesis using sel by (auto simp: initAdInjector_def s_def [symmetric])
  next
    case (Some allContainers)
    define r where "r = (if banners s \<noteq> [] \<and> allContainers \<noteq> []
                         then (let (shuffled, p) = shuffle (mathRandom e) allContainers (draws s)
                               in forEachSendAd e True shuffled (s\<lparr>draws := p\<rparr>))
                         else Returned s)"
    have same: "sameConfig s (stateOf r)"
    proof (cases "banners s \<noteq> [] \<and> allContainers \<noteq> []")
      case True
      obtain sh p where sh: "shuffle (mathRandom e) allContainers (draws s) = (sh, p)" by fastforce
      have "sameConfig (s\<lparr>draws := p\<rparr>) (stateOf (forEachSendAd e True sh (s\<lparr>draws := p\<rparr>)))"
        by (rule forEachSendAd_sameConfig)
      then show ?thesis using True sh by (simp add: r_def sameConfig_def)
    next
      case False
      then show ?thesis by (auto simp: r_def sameConfig_refl)
    qed
    have init: "initAdInjector e s0 =
        (case r of Threw x s1 \<Rightarrow> Threw x s1
         | Returned s1 \<Rightarrow> if length (banners s1) > 1
              then Returned (s1\<lparr>timers := timers s1 @ twoTimers\<rparr>) else Returned s1)"
      unfolding initAdInjector_def twoTimers_def r_def s_def [symmetric] Let_def
      using sel Some by simp
    show ?thesis
      using same sel unfolding init by (cases r) (auto simp: sameConfig_def)
  qed
qed

lemma rotateAdSlots_permutation:
  assumes "banners s \<noteq> []" and "containerSelectors s \<noteq> []"
    and "queryAll e (containerSelectors s) (page s) [] = Some allContainers"
    and "allContainers \<noteq> []"
  shows "\<exists>shuffled p. mset shuffled = mset allContainers \<and>
           rotateAdSlots e s = forEachSendAd e False shuffled (s\<lparr>draws := p\<rparr>)"
proof -
  obtain sh p where sh: "shuffle (mathRandom e) allContainers (draws s) = (sh, p)" by fastforce
  have "mset sh = mset allContainers"
    using shuffle_mset [of "mathRandom e" allContainers "draws s"] sh by simp
  moreover have "rotateAdSlots e s = forEachSendAd e False sh (s\<lparr>draws := p\<rparr>)"
    using assms sh by (simp add: rotateAdSlots_def)
  ultimately show ?thesis by blast
qed

lemma fetch_failure:
  assumes "network e (fetches s) = NetworkError \<or>
           (\<exists>body. network e (fetches s) = Response False body) \<or>
           network e (fetches s) = Response True MalformedJSON \<or>
           network e (fetches s) = Response True (ParsedJSON NotAnArray) \<or>
           (\<exists>cfgs. network e (fetches s) = Response True (ParsedJSON (ConfigArray cfgs)) \<and>
                   (\<forall>cfg \<in> set cfgs. cfg_property_id cfg \<noteq> propertyId e))"
  shows "fetchAllBannersFromFile e s =
           s\<lparr>fetches := Suc (fetches s),
             console := console s @
               (if network e (fetches s) = NetworkError \<or>
                   network e (fetches s) = Response True MalformedJSON
                then [fetchFailed] else [])\<rparr>"
proof -
  consider (net) "network e (fetches s) = NetworkError"
    | (notok) body where "network e (fetches s) = Response False body"
    | (malformed) "network e (fetches s) = Response True MalformedJSON"
    | (notarray) "network e (fetches s) = Response True (ParsedJSON NotAnArray)"
    | (nomatch) cfgs where "network e (fetches s) = Response True (ParsedJSON (ConfigArray cfgs))"
        and "\<forall>cfg \<in> set cfgs. cfg_property_id cfg \<noteq> propertyId e"
    using assms by blast
  then show ?thesis
  proof cases
    case net
    then show ?thesis by (simp add: fetchAllBannersFromFile_def)
  next
    case notok
    then show ?thesis by (simp add: fetchAllBannersFromFile_def)
  next
    case malformed
    then show ?thesis by (simp add: fetchAllBannersFromFile_def)
  next
    case notarray
    then show ?thesis by (simp add: fetchAllBannersFromFile_def)
  next
    case nomatch
    have "find (\<lambda>cfg. cfg_property_id cfg \<noteq> None \<and> cfg_property_id cfg = propertyId e) cfgs = None"
      using nomatch(2) by (simp add: find_None_iff)
    then show ?thesis using nomatch(1) by (simp add: fetchAllBannersFromFile_def)
  qed
qed

lemma fetch_keeps_queues:
  "adQueues (fetchAllBannersFromFile e s) = adQueues s \<and>
   adRotationQueue (fetchAllBannersFromFile e s) = adRotationQueue s"
  by (simp add: fetchAllBannersFromFile_def Let_def
       split: fetch_outcome.splits response_body.splits json_document.splits option.splits)

lemma fetch_timers: "timers (fetchAllBannersFromFile e s) = timers s"
  by (simp add: fetchAllBannersFromFile_def Let_def
       split: fetch_outcome.splits response_body.splits json_document.splits option.splits)

text \<open>
  C8, amended. When \<open>initAdInjector\<close> returns, it has registered the two timers, rotation
  every 10000 ms and re-fetch every 300000 ms, exactly when the fetched configuration
  has at least one container selector and more than one banner; when it is aborted by an
  exception it has registered none. A rotation tick sends an ad to the matched
  containers in a shuffled order (a permutation of the matches), a re-fetch tick runs
  \<open>fetchAllBannersFromFile\<close>.
\<close>

theorem initAdInjector_timers:
  "(initAdInjector e s0 = Returned s' \<longrightarrow>
      timers s' = (if containerSelectors (fetchAllBannersFromFile e s0) \<noteq> []
                      \<and> 1 < length (banners (fetchAllBannersFromFile e s0))
                   then timers s0 @ [(RotateAdSlots, 10000), (FetchAllBannersFromFile, 300000)]
                   else timers s0)) \<and>
   (initAdInjector e s0 = Threw x s' \<longrightarrow> timers s' = timers s0) \<and>
   (banners s \<noteq> [] \<longrightarrow> containerSelectors s \<noteq> [] \<longrightarrow>
    queryAll e (containerSelectors s) (page s) [] = Some allContainers \<longrightarrow> allContainers \<noteq> [] \<longrightarrow>
      (\<exists>shuffled p. mset shuffled = mset allContainers \<and>
         timerTick e RotateAdSlots s = forEachSendAd e False shuffled (s\<lparr>draws := p\<rparr>))) \<and>
   timerTick e FetchAllBannersFromFile s = Returned (fetchAllBannersFromFile e s)"
  using initAdInjector_cases [of e s0 s' x] rotateAdSlots_permutation [of s e allContainers]
  by (simp add: fetch_timers twoTimers_def timerTick_def)

theorem initAdInjector_timers_witness:
  "isReturned (initAdInjector (serving (siteConfig [SelectorString ''.box''] [imageBanner ''a'', imageBanner ''b'']))
      demoState) \<and>
   timers (stateOf (initAdInjector
      (serving (siteConfig [SelectorString ''.box''] [imageBanner ''a'', imageBanner ''b''])) demoState))
     = [(RotateAdSlots, 10000), (FetchAllBannersFromFile, 300000)]"
proof -
  define e where "e = serving (siteConfig [SelectorString ''.box''] [imageBanner ''a'', imageBanner ''b''])"
  have f: "containerSelectors (fetchAllBannersFromFile e demoState) = [SelectorString ''.box''] \<and>
           length (banners (fetchAllBannersFromFile e demoState)) = 2 \<and>
           page (fetchAllBannersFromFile e demoState) = page demoState"
    by (simp add: e_def serving_def siteConfig_def imageBanner_def demoEnv_def demoState_def
          fetchAllBannersFromFile_def selectorsOf_def entryName_def truthy_def toString_def
          bannerMarkup_def)
  have r: "isReturned (initAdInjector e demoState)"
    by (simp add: e_def serving_def siteConfig_def imageBanner_def demoEnv_def demoState_def
          fetchAllBannersFromFile_def selectorsOf_def entryName_def truthy_def toString_def
          bannerMarkup_def initAdInjector_def selectorString_def shuffle_def randomIndex_def
          sendAd_def isSlot_def adSendBanner_def startsWith_def nonAdChildren_def Let_def)
  then obtain s' where s': "initAdInjector e demoState = Returned s'"
    by (cases "initAdInjector e demoState") simp_all
  from initAdInjector_timers [of e demoState s'] s' f
  have "timers s' = timers demoState @ [(RotateAdSlots, 10000), (FetchAllBannersFromFile, 300000)]"
    by simp
  then show ?thesis using r s' by (simp add: e_def demoState_def)
qed

text \<open>
  C8 as stated fails: with two banners loaded and no container selector configured,
  \<open>initAdInjector\<close> returns before the timers and none is started.
\<close>

theorem initAdInjector_timers_counterexample:
  "length (banners (stateOf (adSend (serving (siteConfig [] [imageBanner ''a'', imageBanner ''b'']))
      emptyPage))) = 2 \<and>
   timers (stateOf (adSend (serving (siteConfig [] [imageBanner ''a'', imageBanner ''b''])) emptyPage)) = []"
  by (simp add: adSend_def initialState_def serving_def siteConfig_def imageBanner_def demoEnv_def
        fetchAllBannersFromFile_def selectorsOf_def entryName_def truthy_def toString_def
        bannerMarkup_def initAdInjector_def randomIndex_def Let_def)

lemma initAdInjector_few_banners:
  assumes "length (banners (fetchAllBannersFromFile e s0)) < 2"
  shows "timers (stateOf (initAdInjector e s0)) = timers s0"
proof (cases "initAdInjector e s0")
  case (Returned s')
  then show ?thesis
    using initAdInjector_cases [of e s0 s'] assms by (simp add: fetch_timers)
next
  case (Threw x s')
  then show ?thesis
    using initAdInjector_cases [of e s0 s' x] by (simp add: fetch_timers)
qed

text \<open>
  C10. If the initial fetch leaves fewer than two banners, initialization registers no
  timer, in particular no re-fetch timer: from the state of a freshly loaded script the
  timer list stays empty. A fetch that fails (network error, error status, malformed
  JSON) leaves no banner at all and is such a case.
\<close>

theorem no_refetch_timer_with_few_banners:
  "(length (banners (fetchAllBannersFromFile e s0)) < 2 \<longrightarrow>
      timers (stateOf (initAdInjector e s0)) = timers s0) \<and>
   (length (banners (fetchAllBannersFromFile e (initialState e pg))) < 2 \<longrightarrow>
      timers (stateOf (adSend e pg)) = []) \<and>
   (network e 0 = NetworkError \<or> (\<exists>body. network e 0 = Response False body) \<or>
    network e 0 = Response True MalformedJSON \<longrightarrow>
      banners (fetchAllBannersFromFile e (initialState e pg)) = [] \<and>
      timers (stateOf (adSend e pg)) = [])"
proof -
  have a: "timers (stateOf (adSend e pg)) = []"
    if "length (banners (fetchAllBannersFromFile e (initialState e pg))) < 2"
    using initAdInjector_few_banners [OF that] by (simp add: adSend_def initialState_def)
  have b: "banners (fetchAllBannersFromFile e (initialState e pg)) = []"
    if "network e 0 = NetworkError \<or> (\<exists>body. network e 0 = Response False body) \<or>
        network e 0 = Response True MalformedJSON"
  proof -
    have "fetches (initialState e pg) = 0" by (simp add: initialState_def)
    with that have "network e (fetches (initialState e pg)) = NetworkError \<or>
           (\<exists>body. network e (fetches (initialState e pg)) = Response False body) \<or>
           network e (fetches (initialState e pg)) = Response True MalformedJSON" by simp
    then show ?thesis
      using fetch_failure [of e "initialState e pg"] by (auto simp: initialState_def)
  qed
  show ?thesis using a b initAdInjector_few_banners [of e s0] by auto
qed

theorem no_refetch_timer_with_few_banners_witness:
  "network demoEnv 0 = NetworkError \<and>
   length (banners (fetchAllBannersFromFile demoEnv (initialState demoEnv emptyPage))) < 2 \<and>
   timers (stateOf (adSend demoEnv emptyPage)) = []"
proof -
  have n: "network demoEnv 0 = NetworkError" by (simp add: demoEnv_def)
  with no_refetch_timer_with_few_banners [of demoEnv "initialState demoEnv emptyPage" emptyPage]
  show ?thesis by simp
qed

text \<open>
  C6, amended. On a network error, an error status, malformed JSON or a document with
  no entry for the site id, \<open>fetchAllBannersFromFile\<close> makes its one fetch and changes
  nothing else, except that the network error and the malformed JSON are logged; the
  error status and the missing entry are not. The banners and selectors stay as they
  were: none on the initial load, the previously loaded ones on a re-fetch. The
  function has no exceptional result.
\<close>

theorem fetch_failure_effect:
  assumes "network e (fetches s) = NetworkError \<or>
           (\<exists>body. network e (fetches s) = Response False body) \<or>
           network e (fetches s) = Response True MalformedJSON \<or>
           network e (fetches s) = Response True (ParsedJSON NotAnArray) \<or>
           (\<exists>cfgs. network e (fetches s) = Response True (ParsedJSON (ConfigArray cfgs)) \<and>
                   (\<forall>cfg \<in> set cfgs. cfg_property_id cfg \<noteq> propertyId e))"
  shows "fetchAllBannersFromFile e s =
           s\<lparr>fetches := Suc (fetches s),
             console := console s @
               (if network e (fetches s) = NetworkError \<or>
                   network e (fetches s) = Response True MalformedJSON
                then [fetchFailed] else [])\<rparr> \<and>
         banners (fetchAllBannersFromFile e s) = banners s \<and>
         containerSelectors (fetchAllBannersFromFile e s) = containerSelectors s \<and>
         banners (initialState e pg) = []"
proof -
  have "fetchAllBannersFromFile e s =
           s\<lparr>fetches := Suc (fetches s),
             console := console s @
               (if network e (fetches s) = NetworkError \<or>
                   network e (fetches s) = Response True MalformedJSON
                then [fetchFailed] else [])\<rparr>"
    using assms by (rule fetch_failure)
  then show ?thesis by (simp add: initialState_def)
qed

theorem fetch_failure_effect_witness:
  "network demoEnv (fetches staleState) = NetworkError \<and>
   fetchAllBannersFromFile demoEnv staleState
     = staleState\<lparr>fetches := 1, console := [fetchFailed]\<rparr> \<and>
   banners (fetchAllBannersFromFile demoEnv staleState) = [''old1'', ''old2'']"
proof -
  have n: "network demoEnv (fetches staleState) = NetworkError" by (simp add: demoEnv_def)
  from fetch_failure_effect [of demoEnv staleState] n
  show ?thesis by (simp add: staleState_def demoState_def)
qed

text \<open>
  C6 as stated fails: an error status on a re-fetch is not logged and leaves the banners
  of the previous load configured.
\<close>

theorem fetch_failure_counterexample:
  "network notOk (fetches staleState) = Response False MalformedJSON \<and>
   console (fetchAllBannersFromFile notOk staleState) = [] \<and>
   banners (fetchAllBannersFromFile notOk staleState) = [''old1'', ''old2'']"
  by (simp add: notOk_def demoEnv_def staleState_def demoState_def fetchAllBannersFromFile_def)

lemma fetch_success:
  assumes "network e (fetches s) = Response True (ParsedJSON (ConfigArray cfgs))"
    and "find (\<lambda>cfg. cfg_property_id cfg \<noteq> None \<and> cfg_property_id cfg = propertyId e) cfgs = Some config"
    and "\<not> (truthy (cfg_url config) \<and> \<not> startsWith (pageUrl e) (toString (cfg_url config)))"
  shows "fetchAllBannersFromFile e s =
           s\<lparr>fetches := Suc (fetches s),
             adConfigBanners := Some (case cfg_banners config of None \<Rightarrow> [] | Some bs \<Rightarrow> bs),
             containerSelectors := selectorsOf (cfg_containers config),
             banners := filter (\<lambda>h. h \<noteq> [])
                          (map bannerMarkup (case cfg_banners config of None \<Rightarrow> [] | Some bs \<Rightarrow> bs)),
             copySiblingSelector := (if truthy (cfg_copySiblingSelector config)
                                     then cfg_copySiblingSelector config else None),
             bannerIndex := 0,
             rotationOffset := randomIndex (mathRandom e) (draws s) 1000,
             draws := Suc (draws s)\<rparr>"
  using assms(2,3) unfolding fetchAllBannersFromFile_def Let_def assms(1) by auto

lemma fetch_other_url:
  assumes "network e (fetches s) = Response True (ParsedJSON (ConfigArray cfgs))"
    and "find (\<lambda>cfg. cfg_property_id cfg \<noteq> None \<and> cfg_property_id cfg = propertyId e) cfgs = Some config"
    and "truthy (cfg_url config) \<and> \<not> startsWith (pageUrl e) (toString (cfg_url config))"
  shows "fetchAllBannersFromFile e s =
           s\<lparr>fetches := Suc (fetches s),
             adConfigBanners := Some (case cfg_banners config of None \<Rightarrow> [] | Some bs \<Rightarrow> bs)\<rparr>"
  using assms(2,3) unfolding fetchAllBannersFromFile_def Let_def assms(1) by auto

text \<open>
  C2, amended. A successful re-fetch (an OK response with an entry for the site id)
  replaces \<^verbatim>\<open>window._adConfigBanners\<close>. When the entry has no \<^verbatim>\<open>url\<close> or its \<^verbatim>\<open>url\<close> is a prefix
  of the page URL, it also replaces the banner list, the container selectors and the
  sibling selector, resets \<open>bannerIndex\<close> and draws a new \<open>rotationOffset\<close>; when the
  \<^verbatim>\<open>url\<close> is not a prefix, it changes nothing else. In both cases every per-container
  queue and the global queue are left as they are: a queue that still holds banners goes
  on returning them, and only an empty or absent queue starts a shuffle cycle over the
  banner list of the state after the fetch.
\<close>

theorem refetch_keeps_queues:
  assumes "network e (fetches s) = Response True (ParsedJSON (ConfigArray cfgs))"
    and "find (\<lambda>cfg. cfg_property_id cfg \<noteq> None \<and> cfg_property_id cfg = propertyId e) cfgs = Some config"
    and "s' = fetchAllBannersFromFile e s"
  shows "adConfigBanners s' = Some (case cfg_banners config of None \<Rightarrow> [] | Some bs \<Rightarrow> bs) \<and>
         (\<not> (truthy (cfg_url config) \<and> \<not> startsWith (pageUrl e) (toString (cfg_url config))) \<longrightarrow>
            banners s' = filter (\<lambda>h. h \<noteq> [])
                           (map bannerMarkup (case cfg_banners config of None \<Rightarrow> [] | Some bs \<Rightarrow> bs)) \<and>
            containerSelectors s' = selectorsOf (cfg_containers config) \<and>
            copySiblingSelector s' = (if truthy (cfg_copySiblingSelector config)
                                      then cfg_copySiblingSelector config else None) \<and>
            bannerIndex s' = 0 \<and>
            rotationOffset s' = randomIndex (mathRandom e) (draws s) 1000) \<and>
         (truthy (cfg_url config) \<and> \<not> startsWith (pageUrl e) (toString (cfg_url config)) \<longrightarrow>
            s' = s\<lparr>fetches := Suc (fetches s),
                   adConfigBanners := Some (case cfg_banners config of None \<Rightarrow> [] | Some bs \<Rightarrow> bs)\<rparr>) \<and>
         adQueues s' = adQueues s \<and> adRotationQueue s' = adRotationQueue s \<and>
         (\<forall>c x q. adQueues s c = Some (x # q) \<longrightarrow>
            getNextAd e c (banners s') s' = (Some x, s'\<lparr>adQueues := (adQueues s')(c \<mapsto> q)\<rparr>)) \<and>
         (\<forall>c. (adQueues s c = None \<or> adQueues s c = Some []) \<longrightarrow> banners s' \<noteq> [] \<longrightarrow>
            (\<exists>x. fst (getNextAd e c (banners s') s') = Some x \<and> x \<in> set (banners s'))) \<and>
         (\<forall>x q. adRotationQueue s = x # q \<longrightarrow>
            getNextAdRoundRobin e (banners s') s' = (Some x, s'\<lparr>adRotationQueue := q\<rparr>))"
proof -
  have other: "s' = s\<lparr>fetches := Suc (fetches s),
                   adConfigBanners := Some (case cfg_banners config of None \<Rightarrow> [] | Some bs \<Rightarrow> bs)\<rparr>"
    if "truthy (cfg_url config) \<and> \<not> startsWith (pageUrl e) (toString (cfg_url config))"
    unfolding assms(3) using assms(1,2) that by (rule fetch_other_url)
  have eq: "s' = s\<lparr>fetches := Suc (fetches s),
             adConfigBanners := Some (case cfg_banners config of None \<Rightarrow> [] | Some bs \<Rightarrow> bs),
             containerSelectors := selectorsOf (cfg_containers config),
             banners := filter (\<lambda>h. h \<noteq> [])
                          (map bannerMarkup (case cfg_banners config of None \<Rightarrow> [] | Some bs \<Rightarrow> bs)),
             copySiblingSelector := (if truthy (cfg_copySiblingSelector config)
                                     then cfg_copySiblingSelector config else None),
             bannerIndex := 0,
             rotationOffset := randomIndex (mathRandom e) (draws s) 1000,
             draws := Suc (draws s)\<rparr>"
    if "\<not> (truthy (cfg_url config) \<and> \<not> startsWith (pageUrl e) (toString (cfg_url config)))"
    unfolding assms(3) using assms(1,2) that by (rule fetch_success)
  have cb: "adConfigBanners s' = Some (case cfg_banners config of None \<Rightarrow> [] | Some bs \<Rightarrow> bs)"
  proof (cases "truthy (cfg_url config) \<and> \<not> startsWith (pageUrl e) (toString (cfg_url config))")
    case True
    show ?thesis by (subst other [OF True]) simp
  next
    case False
    show ?thesis by (subst eq [OF False]) simp
  qed
  have replaced: "banners s' = filter (\<lambda>h. h \<noteq> [])
                           (map bannerMarkup (case cfg_banners config of None \<Rightarrow> [] | Some bs \<Rightarrow> bs)) \<and>
            containerSelectors s' = selectorsOf (cfg_containers config) \<and>
            copySiblingSelector s' = (if truthy (cfg_copySiblingSelector config)
                                      then cfg_copySiblingSelector config else None) \<and>
            bannerIndex s' = 0 \<and>
            rotationOffset s' = randomIndex (mathRandom e) (draws s) 1000"
    if "\<not> (truthy (cfg_url config) \<and> \<not> startsWith (pageUrl e) (toString (cfg_url config)))"
    by (subst (1 2 3 4 5) eq [OF that]) simp
  have q: "adQueues s' = adQueues s" and g: "adRotationQueue s' = adRotationQueue s"
    unfolding assms(3) using fetch_keeps_queues [of e s] by simp_all
  have old: "getNextAd e c (banners s') s' = (Some x, s'\<lparr>adQueues := (adQueues s')(c \<mapsto> q)\<rparr>)"
    if "adQueues s c = Some (x # q)" for c x q
    using that q getNextAd_nonempty [of s' c x q e "banners s'"] by simp
  have new: "\<exists>x. fst (getNextAd e c (banners s') s') = Some x \<and> x \<in> set (banners s')"
    if "adQueues s c = None \<or> adQueues s c = Some []" and "banners s' \<noteq> []" for c
  proof -
    from that q have "adQueues s' c = None \<or> adQueues s' c = Some []" by simp
    from getNextAd_refill [OF this that(2), of e]
    obtain x rest s1 where "getNextAd e c (banners s') s' = (Some x, s1)"
      and m: "mset (x # rest) = mset (banners s')" by blast
    moreover have "x \<in> set (banners s')" using mset_eq_setD [OF m] by auto
    ultimately show ?thesis by simp
  qed
  have rr: "getNextAdRoundRobin e (banners s') s' = (Some x, s'\<lparr>adRotationQueue := q\<rparr>)"
    if "adRotationQueue s = x # q" for x q
    using that g by (simp add: getNextAdRoundRobin_def)
  show ?thesis using cb replaced other q g old new rr by blast
qed

text \<open>
  C2 as stated fails: after a successful re-fetch that replaces both banners, the next
  draw for a container in the middle of its cycle returns a banner of the old list.
\<close>

theorem refetch_keeps_queues_counterexample:
  "network (serving newConfig) (fetches staleState) = Response True (ParsedJSON (ConfigArray [newConfig])) \<and>
   fst (getNextAd (serving newConfig) 0
          (banners (fetchAllBannersFromFile (serving newConfig) staleState))
          (fetchAllBannersFromFile (serving newConfig) staleState)) = Some ''old1'' \<and>
   ''old1'' \<notin> set (banners (fetchAllBannersFromFile (serving newConfig) staleState))"
  by (simp add: serving_def newConfig_def siteConfig_def imageBanner_def demoEnv_def staleState_def
        demoState_def fetchAllBannersFromFile_def selectorsOf_def entryName_def truthy_def
        toString_def bannerMarkup_def getNextAd_def randomIndex_def)

theorem refetch_keeps_queues_witness:
  "network (serving newConfig) (fetches staleState) = Response True (ParsedJSON (ConfigArray [newConfig])) \<and>
   find (\<lambda>cfg. cfg_property_id cfg \<noteq> None \<and> cfg_property_id cfg = propertyId (serving newConfig))
     [newConfig] = Some newConfig \<and>
   \<not> (truthy (cfg_url newConfig)
       \<and> \<not> startsWith (pageUrl (serving newConfig)) (toString (cfg_url newConfig))) \<and>
   adQueues (fetchAllBannersFromFile (serving newConfig) staleState) 0 = Some [''old1''] \<and>
   adRotationQueue (fetchAllBannersFromFile (serving newConfig) staleState) = [''old2''] \<and>
   containerSelectors (fetchAllBannersFromFile (serving newConfig) staleState) = [SelectorString ''.box''] \<and>
   copySiblingSelector (fetchAllBannersFromFile (serving newConfig) staleState) = None \<and>
   bannerIndex (fetchAllBannersFromFile (serving newConfig) staleState) = 0"
proof -
  have 1: "network (serving newConfig) (fetches staleState)
             = Response True (ParsedJSON (ConfigArray [newConfig]))"
    by (simp add: serving_def)
  have 2: "find (\<lambda>cfg. cfg_property_id cfg \<noteq> None \<and> cfg_property_id cfg = propertyId (serving newConfig))
             [newConfig] = Some newConfig"
    by (simp add: serving_def newConfig_def siteConfig_def demoEnv_def)
  have 3: "\<not> (truthy (cfg_url newConfig)
              \<and> \<not> startsWith (pageUrl (serving newConfig)) (toString (cfg_url newConfig)))"
    by (simp add: newConfig_def siteConfig_def truthy_def)
  have sel: "selectorsOf (cfg_containers newConfig) = [SelectorString ''.box'']"
    by (simp add: newConfig_def siteConfig_def selectorsOf_def entryName_def truthy_def)
  have sib: "\<not> truthy (cfg_copySiblingSelector newConfig)"
    by (simp add: newConfig_def siteConfig_def truthy_def)
  from refetch_keeps_queues [OF 1 2 refl] 3
  have "adQueues (fetchAllBannersFromFile (serving newConfig) staleState) = adQueues staleState"
    and "adRotationQueue (fetchAllBannersFromFile (serving newConfig) staleState)
           = adRotationQueue staleState"
    and "containerSelectors (fetchAllBannersFromFile (serving newConfig) staleState)
           = selectorsOf (cfg_containers newConfig)"
    and "copySiblingSelector (fetchAllBannersFromFile (serving newConfig) staleState)
           = (if truthy (cfg_copySiblingSelector newConfig)
              then cfg_copySiblingSelector newConfig else None)"
    and "bannerIndex (fetchAllBannersFromFile (serving newConfig) staleState) = 0"
    by blast+
  then show ?thesis using 1 2 3 sel sib by (simp add: staleState_def)
qed

theorem sendAd_skips_small_container_witness:
  "page (onPage twoChildren) 0 = Element ''div'' [''box''] [] None
     [Element ''p'' [] [] None [], Text ''and'', Element ''p'' [] [] None []] \<and>
   \<not> isSlot (page (onPage twoChildren) 0) \<and>
   length (nonAdChildren [Element ''p'' [] [] None [], Text ''and'', Element ''p'' [] [] None []]) < 3 \<and>
   sendAd demoEnv [''ad1'', ''ad2''] 0 True (onPage twoChildren) = Returned (onPage twoChildren)"
proof -
  have 1: "page (onPage twoChildren) 0 = Element ''div'' [''box''] [] None
     [Element ''p'' [] [] None [], Text ''and'', Element ''p'' [] [] None []]"
    by (simp add: onPage_def twoChildren_def)
  have 2: "\<not> isSlot (page (onPage twoChildren) 0)"
    by (simp add: onPage_def twoChildren_def isSlot_def adSendBanner_def startsWith_def)
  have 3: "length (nonAdChildren [Element ''p'' [] [] None [], Text ''and'', Element ''p'' [] [] None []]) < 3"
    by (simp add: nonAdChildren_def)
  from sendAd_skips_small_container [OF 1 2 3] 1 2 3 show ?thesis by simp
qed

section \<open>The insertion index and the place of the wrapper\<close>


lemma isDigit_digitChar: "d < 10 \<Longrightarrow> isDigit (digitChar d) \<and> digitValue (digitChar d) = d"
  by (simp add: isDigit_def digitChar_def digitValue_def)

lemma isDigit_plain:
  "isDigit c \<Longrightarrow> \<not> isStrWhiteSpace c \<and> c \<noteq> CHR ''+'' \<and> c \<noteq> CHR ''-''"
  by (auto simp: isDigit_def isStrWhiteSpace_def)

lemma numToString_digits: "numToString n \<noteq> [] \<and> (\<forall>c \<in> set (numToString n). isDigit c)"
proof (induction n rule: numToString.induct)
  case (1 n)
  show ?case
  proof (cases "n < 10")
    case True
    then show ?thesis using isDigit_digitChar [of n] by (subst (1 2) numToString.simps) simp
  next
    case False
    have "n mod 10 < 10" by simp
    then have "isDigit (digitChar (n mod 10))" using isDigit_digitChar by blast
    then show ?thesis using False "1.IH" by (subst (1 2) numToString.simps) simp
  qed
qed

lemma numToString_value: "foldl (\<lambda>v c. 10 * v + digitValue c) 0 (numToString n) = n"
proof (induction n rule: numToString.induct)
  case (1 n)
  show ?case
  proof (cases "n < 10")
    case True
    then show ?thesis using isDigit_digitChar [of n] by (subst numToString.simps) simp
  next
    case False
    have "n mod 10 < 10" by simp
    then have "digitValue (digitChar (n mod 10)) = n mod 10" using isDigit_digitChar by blast
    then show ?thesis using False "1.IH" by (subst numToString.simps) simp
  qed
qed

lemma parseInt_numToString: "parseInt (numToString n) = Some (int n)"
proof -
  obtain c cs where s: "numToString n = c # cs"
    using numToString_digits [of n] by (cases "numToString n") auto
  have all: "\<forall>x \<in> set (c # cs). isDigit x" using numToString_digits [of n] s by simp
  then have c: "isDigit c" by simp
  have 1: "dropWhile isStrWhiteSpace (c # cs) = c # cs" using isDigit_plain [OF c] by simp
  have 2: "takeWhile isDigit (c # cs) = c # cs" using all by (simp add: takeWhile_eq_all_conv)
  have 3: "foldl (\<lambda>v c. 10 * v + digitValue c) 0 (c # cs) = n"
    using numToString_value [of n] s by simp
  show ?thesis
    unfolding parseInt_def s 1 Let_def using isDigit_plain [OF c] 2 3 by simp
qed

lemma numToString_1: "numToString 1 = ''1''"
  by code_simp

lemma chooseIndex_valid:
  assumes "parseInt a = Some idx" and "1 \<le> idx" and "idx < int n - 1"
  shows "chooseIndex e (Some a) n p = (Some (nat idx), Some a, p)"
  using assms by (simp add: chooseIndex_def)

lemma chooseIndex_invalid:
  assumes "parseInt a = None \<or> (\<exists>idx. parseInt a = Some idx \<and> (idx < 1 \<or> int n - 1 \<le> idx))"
  shows "chooseIndex e (Some a) n p = (Some 1, Some ''1'', p)"
proof -
  have "numToString 1 = ''1''" by (rule numToString_1)
  then show ?thesis using assms by (auto simp: chooseIndex_def)
qed

lemma chooseIndex_fresh:
  assumes "3 \<le> n"
  shows "\<exists>idx. 1 \<le> idx \<and> idx \<le> n - 2 \<and>
           chooseIndex e None n p = (Some idx, Some (numToString idx), Suc p)"
proof -
  define r where "r = randomIndex (mathRandom e) p (length [1..<n - 1])"
  have len: "length [1..<n - 1] = n - 2" by simp
  have "0 < length [1..<n - 1]" using assms by simp
  then have r: "r < n - 2" using randomIndex_less [of "length [1..<n - 1]" "mathRandom e" p]
    by (simp add: r_def)
  then have nth: "[1..<n - 1] ! r = Suc r" by simp
  have "chooseIndex e None n p = (Some (Suc r), Some (numToString (Suc r)), Suc p)"
    using r nth unfolding chooseIndex_def Let_def r_def [symmetric] by simp
  moreover have "1 \<le> Suc r \<and> Suc r \<le> n - 2" using r by simp
  ultimately show ?thesis by blast
qed

lemma chooseIndex_bounds:
  assumes "3 \<le> n"
  shows "\<exists>idx a' p'. chooseIndex e attr n p = (Some idx, Some a', p') \<and> 1 \<le> idx \<and> idx \<le> n - 2 \<and>
           parseInt a' = Some (int idx)"
proof (cases attr)
  case None
  from chooseIndex_fresh [OF assms, of e p] obtain idx where i: "1 \<le> idx" "idx \<le> n - 2"
    and c: "chooseIndex e None n p = (Some idx, Some (numToString idx), Suc p)" by blast
  have "parseInt (numToString idx) = Some (int idx)" by (rule parseInt_numToString)
  with i c show ?thesis unfolding None by blast
next
  case (Some a)
  show ?thesis
  proof (cases "\<exists>idx. parseInt a = Some idx \<and> 1 \<le> idx \<and> idx < int n - 1")
    case True
    then obtain idx where i: "parseInt a = Some idx" "1 \<le> idx" "idx < int n - 1" by blast
    have c: "chooseIndex e (Some a) n p = (Some (nat idx), Some a, p)"
      using i by (rule chooseIndex_valid)
    have "1 \<le> nat idx" and "nat idx \<le> n - 2" and "parseInt a = Some (int (nat idx))"
      using i by simp_all
    with c show ?thesis unfolding Some by blast
  next
    case False
    then have "parseInt a = None \<or> (\<exists>idx. parseInt a = Some idx \<and> (idx < 1 \<or> int n - 1 \<le> idx))"
      by (cases "parseInt a") auto
    then have c: "chooseIndex e (Some a) n p = (Some 1, Some ''1'', p)" by (rule chooseIndex_invalid)
    have "parseInt ''1'' = Some (int 1)"
      using parseInt_numToString [of 1] unfolding numToString_1 .
    moreover have "(1::nat) \<le> 1" and "(1::nat) \<le> n - 2" using assms by simp_all
    ultimately show ?thesis using c unfolding Some by blast
  qed
qed

lemma nonAdChildren_alt: "nonAdChildren ks = filter (\<lambda>j. nonAd (ks ! j)) [0..<length ks]"
  by (simp add: nonAdChildren_def nonAd_def)

lemma nonAdChildren_snoc:
  "nonAdChildren (ks @ [x]) = nonAdChildren ks @ (if nonAd x then [length ks] else [])"
proof -
  have "filter (\<lambda>j. nonAd ((ks @ [x]) ! j)) [0..<length ks] = filter (\<lambda>j. nonAd (ks ! j)) [0..<length ks]"
    by (rule filter_cong) (simp_all add: nth_append)
  then show ?thesis by (simp add: nonAdChildren_alt)
qed

lemma length_nonAdChildren: "length (nonAdChildren ks) = length (filter nonAd ks)"
  by (induction ks rule: rev_induct) (simp_all add: nonAdChildren_snoc, simp add: nonAdChildren_alt)

lemma nonAdChildren_nth:
  "idx < length (nonAdChildren ks) \<Longrightarrow>
     nonAdChildren ks ! idx < length ks \<and> nonAd (ks ! (nonAdChildren ks ! idx)) \<and>
     length (filter nonAd (take (nonAdChildren ks ! idx) ks)) = idx"
proof (induction ks rule: rev_induct)
  case Nil
  then show ?case by (simp add: nonAdChildren_alt)
next
  case (snoc x ks)
  show ?case
  proof (cases "idx < length (nonAdChildren ks)")
    case True
    from snoc.IH [OF True] show ?thesis
      using True by (simp add: nonAdChildren_snoc nth_append)
  next
    case False
    with snoc.prems have x: "nonAd x" and idx: "idx = length (nonAdChildren ks)"
      by (auto simp: nonAdChildren_snoc split: if_splits)
    then show ?thesis by (simp add: nonAdChildren_snoc nth_append length_nonAdChildren)
  qed
qed

lemma getAt_Cons_Suc: "getAt (Suc j # q) (x # ns) = getAt (j # q) ns"
  by (cases q) simp_all

lemma getAt_Cons_0: "q \<noteq> [] \<Longrightarrow> getAt (0 # q) (Element t cs i a ks # ns) = getAt q ks"
  by (cases q) simp_all

lemma findFirst_Some:
  "findFirst P ks = Some p \<Longrightarrow> p \<noteq> [] \<and> (\<exists>w. getAt p ks = Some w \<and> P w)"
proof (induction P ks arbitrary: p rule: findFirst.induct)
  case (1 P)
  then show ?case by simp
next
  case (2 P t ns)
  then obtain p' where p': "findFirst P ns = Some p'" and p: "p = bumpHead p'" by auto
  from "2.IH" [OF p'] obtain j q w where "p' = j # q" and "getAt p' ns = Some w" and "P w"
    by (cases p') auto
  then show ?case using p by (simp add: bumpHead_def getAt_Cons_Suc)
next
  case (3 P t cs i a ks ns)
  show ?case
  proof (cases "P (Element t cs i a ks)")
    case True
    then show ?thesis using "3.prems" by auto
  next
    case notP: False
    show ?thesis
    proof (cases "findFirst P ks")
      case (Some q)
      from "3.IH"(1) [OF notP Some] obtain w where "q \<noteq> []" and "getAt q ks = Some w" and "P w"
        by auto
      moreover have "p = 0 # q" using "3.prems" notP Some by simp
      ultimately show ?thesis by (simp add: getAt_Cons_0)
    next
      case None
      then obtain p' where p': "findFirst P ns = Some p'" and p: "p = bumpHead p'"
        using "3.prems" notP by auto
      from "3.IH"(2) [OF notP None p'] obtain j q w where "p' = j # q" and "getAt p' ns = Some w" and "P w"
        by (cases p') auto
      then show ?thesis using p by (simp add: bumpHead_def getAt_Cons_Suc)
    qed
  qed
qed

lemma length_removeAt_nested: "q \<noteq> [] \<Longrightarrow> length (removeAt (j # q) ks) = length ks"
  by (cases q) (simp_all split: node.splits)

lemma getAt_valid: "getAt (j # q) ks = Some w \<Longrightarrow> j < length ks"
  by (cases q) (simp_all split: if_splits)

lemma placeWrapper_uniform:
  assumes r: "r < length ks"
    and w: "\<And>p. adWrapper = Some p \<Longrightarrow> \<exists>w0. getAt p ks = Some w0"
  shows "placeWrapper adWrapper r ks =
           (take (wrapperPos adWrapper r) (detached adWrapper ks) @ wrapperNode adWrapper ks
              # drop (wrapperPos adWrapper r) (detached adWrapper ks),
            wrapperPos adWrapper r)"
proof (cases adWrapper)
  case None
  then show ?thesis using r
    by (auto simp: placeWrapper_def wrapperPos_def detached_def wrapperNode_def insertBeforeNew_def)
next
  case (Some p)
  from w [OF Some] obtain w0 where w0: "getAt p ks = Some w0" by blast
  then obtain j q where p: "p = j # q" by (cases p) auto
  have j: "j < length ks" using w0 p getAt_valid by blast
  show ?thesis
  proof (cases "p = [Suc r]")
    case True
    then have "Suc r < length ks" and "w0 = ks ! Suc r" using w0 by (auto split: if_splits)
    then show ?thesis using Some True w0
      by (simp add: placeWrapper_def wrapperPos_def detached_def wrapperNode_def refAfterDetach_def
            id_take_nth_drop [symmetric])
  next
    case False
    show ?thesis
    proof (cases "Suc r < length ks")
      case True
      then show ?thesis using Some False w0
        by (simp add: placeWrapper_def wrapperPos_def detached_def wrapperNode_def
              insertBeforeMove_def insertBeforeNew_def)
    next
      case last: False
      with r have len: "length ks = Suc r" by simp
      have pos: "refAfterDetach p (Suc r) = length (removeAt p ks)"
      proof (cases q)
        case Nil
        then show ?thesis using p j len by (auto simp: refAfterDetach_def)
      next
        case (Cons a list)
        then show ?thesis using p len length_removeAt_nested [of q j ks]
          by (simp add: refAfterDetach_def)
      qed
      show ?thesis using Some False w0 last pos
        by (simp add: placeWrapper_def wrapperPos_def detached_def wrapperNode_def appendChildMove_def)
    qed
  qed
qed

lemma filter_length_map_cong:
  "map P xs = map P ys \<Longrightarrow> length (filter P xs) = length (filter P ys)"
proof -
  assume "map P xs = map P ys"
  then have "filter id (map P xs) = filter id (map P ys)" by simp
  then have "length (filter id (map P xs)) = length (filter id (map P ys))" by simp
  then show ?thesis by (simp add: filter_map comp_def)
qed

lemma removeAt_nested_nonAd:
  assumes "q \<noteq> []" shows "map nonAd (removeAt (j # q) ks) = map nonAd ks"
proof -
  obtain a q' where q: "q = a # q'" using assms by (cases q) auto
  show ?thesis
  proof (cases "j < length ks")
    case True
    show ?thesis
    proof (cases "ks ! j")
      case (Text t)
      then show ?thesis using q True by simp
    next
      case (Element t cs i at kids)
      have "nonAd (Element t cs i at (removeAt q kids)) = nonAd (ks ! j)"
        using Element by (simp add: nonAd_def isAd_def)
      then have "(map nonAd ks)[j := nonAd (Element t cs i at (removeAt q kids))] = map nonAd ks"
      proof -
        have "map nonAd ks ! j = nonAd (Element t cs i at (removeAt q kids))"
          using True \<open>nonAd (Element t cs i at (removeAt q kids)) = nonAd (ks ! j)\<close> by simp
        then show ?thesis using list_update_id [of "map nonAd ks" j] by simp
      qed
      then show ?thesis using q True Element by (simp add: map_update)
    qed
  next
    case False
    then show ?thesis using q by simp
  qed
qed

lemma split_two:
  assumes "j < r" and "r < length ks"
  shows "\<exists>X Y Z. ks = X @ ks ! j # Y @ ks ! r # Z \<and> length X = j \<and> r = Suc (length X + length Y)"
proof -
  have 1: "ks = take r ks @ ks ! r # drop (Suc r) ks" using assms(2) by (rule id_take_nth_drop)
  have "j < length (take r ks)" using assms by simp
  from id_take_nth_drop [OF this]
  have 2: "take r ks = take j ks @ ks ! j # drop (Suc j) (take r ks)"
    using assms(1) by simp
  have 3: "ks = take j ks @ ks ! j # drop (Suc j) (take r ks) @ ks ! r # drop (Suc r) ks"
    using 1 2 by (metis append.assoc append_Cons)
  have 4: "length (take j ks) = j" using assms by simp
  have "length (take r ks) = r" using assms by simp
  then have "length (take j ks @ ks ! j # drop (Suc j) (take r ks)) = r" using 2 by simp
  then have 5: "r = Suc (length (take j ks) + length (drop (Suc j) (take r ks)))" by simp
  show ?thesis using 3 4 5 by blast
qed

lemma counts_wrapper_before:
  assumes "\<not> nonAd a" and "nonAd b"
  shows "nonAd ((X @ Y @ b # Z) ! (Suc (length X + length Y) - 1)) \<and>
         length (filter nonAd (take (Suc (length X + length Y)) (X @ Y @ b # Z)))
           = length (filter nonAd (take (Suc (Suc (length X + length Y))) (X @ a # Y @ b # Z))) \<and>
         length (filter nonAd (drop (Suc (length X + length Y)) (X @ Y @ b # Z)))
           = length (filter nonAd (drop (Suc (Suc (length X + length Y))) (X @ a # Y @ b # Z)))"
proof -
  have "(X @ Y @ b # Z) ! (length X + length Y) = b"
    by (metis append.assoc length_append nth_append_length)
  then show ?thesis using assms by simp
qed

lemma counts_wrapper_after:
  assumes "\<not> nonAd a" and "nonAd b"
  shows "nonAd ((X @ b # Y @ Z) ! (Suc (length X) - 1)) \<and>
         length (filter nonAd (take (Suc (length X)) (X @ b # Y @ Z)))
           = length (filter nonAd (take (Suc (length X)) (X @ b # Y @ a # Z))) \<and>
         length (filter nonAd (drop (Suc (length X)) (X @ b # Y @ Z)))
           = length (filter nonAd (drop (Suc (length X)) (X @ b # Y @ a # Z)))"
  using assms by simp

lemma removeAt_top_before: "removeAt [length X] (X @ a # Y) = X @ Y"
  by simp

lemma detached_counts:
  assumes r: "r < length ks" and ref: "nonAd (ks ! r)"
    and w: "\<And>p. adWrapper = Some p \<Longrightarrow> \<exists>w0. getAt p ks = Some w0 \<and> isAd w0"
  shows "wrapperPos adWrapper r \<le> length (detached adWrapper ks) \<and>
         0 < wrapperPos adWrapper r \<and>
         nonAd (detached adWrapper ks ! (wrapperPos adWrapper r - 1)) \<and>
         length (filter nonAd (take (wrapperPos adWrapper r) (detached adWrapper ks)))
           = length (filter nonAd (take (Suc r) ks)) \<and>
         length (filter nonAd (drop (wrapperPos adWrapper r) (detached adWrapper ks)))
           = length (filter nonAd (drop (Suc r) ks))"
proof (cases adWrapper)
  case None
  then show ?thesis using r ref by (simp add: wrapperPos_def detached_def)
next
  case (Some p)
  from w [OF Some] obtain w0 where w0: "getAt p ks = Some w0" and ad: "isAd w0" by blast
  then obtain j q where p: "p = j # q" by (cases p) auto
  have j: "j < length ks" using w0 p getAt_valid by blast
  show ?thesis
  proof (cases q)
    case Nil
    then have kj: "ks ! j = w0" using w0 p j by simp
    then have notad: "\<not> nonAd (ks ! j)" using ad by (simp add: nonAd_def)
    with ref have jr: "j \<noteq> r" by auto
    have rest: "detached adWrapper ks = removeAt [j] ks"
      using Some p Nil by (simp add: detached_def)
    show ?thesis
    proof (cases "j < r")
      case True
      have pos: "wrapperPos adWrapper r = r"
        using Some p Nil True by (simp add: wrapperPos_def refAfterDetach_def)
      from split_two [OF True r] obtain X Y Z a b where ks: "ks = X @ a # Y @ b # Z"
        and a: "a = ks ! j" and b: "b = ks ! r"
        and X: "j = length X" and Y: "r = Suc (length X + length Y)"
        by metis
      have na: "\<not> nonAd a" and nb: "nonAd b" using notad ref a b by simp_all
      have rm: "removeAt [j] ks = X @ Y @ b # Z"
        unfolding ks X by (rule removeAt_top_before)
      show ?thesis
        unfolding pos rest rm using counts_wrapper_before [OF na nb, of X Y Z] na nb
        unfolding Y ks by simp
    next
      case False
      with jr have rj: "r < j" by simp
      have pos: "wrapperPos adWrapper r = Suc r"
        using Some p Nil rj by (simp add: wrapperPos_def refAfterDetach_def)
      from split_two [OF rj j] obtain X Y Z a b where ks: "ks = X @ b # Y @ a # Z"
        and a: "a = ks ! j" and b: "b = ks ! r"
        and X: "r = length X" and Y: "j = Suc (length X + length Y)"
        by metis
      have na: "\<not> nonAd a" and nb: "nonAd b" using notad ref a b by simp_all
      have "removeAt [length (X @ b # Y)] ((X @ b # Y) @ a # Z) = (X @ b # Y) @ Z"
        by (rule removeAt_top_before)
      then have rm: "removeAt [j] ks = X @ b # Y @ Z"
        unfolding ks Y by simp
      show ?thesis
        unfolding pos rest rm using counts_wrapper_after [OF na nb, of X Y Z] na nb
        unfolding X ks by simp
    qed
  next
    case (Cons a q')
    then have qne: "q \<noteq> []" by simp
    have pos: "wrapperPos adWrapper r = Suc r"
      using Some p Cons by (simp add: wrapperPos_def refAfterDetach_def)
    have m: "map nonAd (detached adWrapper ks) = map nonAd ks"
      using Some p removeAt_nested_nonAd [OF qne] by (simp add: detached_def)
    then have len: "length (detached adWrapper ks) = length ks" by (rule map_eq_imp_length_eq)
    have tk: "map nonAd (take n (detached adWrapper ks)) = map nonAd (take n ks)" for n
      using m by (simp add: take_map [symmetric])
    have dr: "map nonAd (drop n (detached adWrapper ks)) = map nonAd (drop n ks)" for n
      using m by (simp add: drop_map [symmetric])
    have "nonAd (detached adWrapper ks ! r) = nonAd (ks ! r)"
      using m r len by (metis nth_map)
    then show ?thesis
      unfolding pos using r ref len filter_length_map_cong [OF tk] filter_length_map_cong [OF dr]
      by simp
  qed
qed

lemma isAd_setChildNodes [simp]: "isAd (setChildNodes k w) = isAd w"
  by (cases w) (simp_all add: isAd_def)

lemma isAd_setId [simp]: "isAd (setId k w) = isAd w"
  by (cases w) (simp_all add: isAd_def)

lemma isAd_newAdWrapper: "isAd newAdWrapper"
  by (simp add: isAd_def newAdWrapper_def)

lemma animateAdEntry_isAd: "isAd w \<Longrightarrow> isAd (fst (animateAdEntry e w p))"
proof (cases w)
  case (Text t)
  assume "isAd w"
  with Text show ?thesis by (simp add: isAd_def)
next
  case (Element t cs i a ks)
  assume "isAd w"
  with Element have "adSendBanner \<in> set cs" by (simp add: isAd_def)
  moreover have "adSendBanner \<notin> set animations" by (simp add: adSendBanner_def animations_def)
  ultimately have "adSendBanner \<in> set (classListAdd x (classListRemove animations cs))" for x
    by (simp add: classListAdd_def classListRemove_def)
  then show ?thesis using Element by (simp add: animateAdEntry_def Let_def isAd_def)
qed

lemma replicateSiblingStyles_shape:
  "\<exists>w1. replicateSiblingStyles e wpos sibs ks = ks[wpos := w1] \<and> (isAd (ks ! wpos) \<longrightarrow> isAd w1)"
proof -
  have keep: "\<exists>w1. ks = ks[wpos := w1] \<and> (isAd (ks ! wpos) \<longrightarrow> isAd w1)"
    by (rule exI [of _ "ks ! wpos"]) simp
  have cls: "isAd (setClassName (filter P cs @ [adSendBanner]) w)" if "isAd w" for P cs w
    using that by (cases w) (simp_all add: isAd_def)
  show ?thesis
  proof (cases "sibs = []")
    case True
    then show ?thesis using keep by (simp add: replicateSiblingStyles_def)
  next
    case False
    show ?thesis
    proof (cases "find (\<lambda>el. el \<noteq> wpos \<and> \<not> displayNone e (ks ! el)) sibs")
      case None
      then show ?thesis using keep False by (simp add: replicateSiblingStyles_def)
    next
      case (Some r)
      then show ?thesis using False cls
        by (auto simp: replicateSiblingStyles_def Let_def)
    qed
  qed
qed

lemma finishAd_shape:
  assumes "page s c = Element t cs i a ks0" and "isAd (ks ! wpos)"
  shows "\<exists>w'. isAd w' \<and>
           stateOf (finishAd e c wpos ks s)
             = s\<lparr>draws := Suc (draws s), page := (page s)(c := Element t cs i a (ks[wpos := w']))\<rparr>"
proof -
  obtain w p where a: "animateAdEntry e (ks ! wpos) (draws s) = (w, p)" by fastforce
  have "isAd w" using animateAdEntry_isAd [OF assms(2), of e "draws s"] a by simp
  moreover have "p = Suc (draws s)" using a by (simp add: animateAdEntry_def Let_def)
  ultimately show ?thesis using a assms(1) by (auto simp: finishAd_def)
qed

lemma fillAd_shape:
  assumes c: "page s0 c = Element t cs i a ks" and wpos: "wpos < length ks" and ad: "isAd (ks ! wpos)"
  shows "\<exists>w'. isAd w' \<and>
           page (stateOf (fillAd e bs c wpos s0)) = (page s0)(c := Element t cs i a (ks[wpos := w']))"
proof -
  obtain adHtml s where g: "getNextAd e c bs s0 = (adHtml, s)" by fastforce
  have pg: "page s = page s0" using getNextAd_page [of e c bs s0] g by simp
  have c': "page s c = Element t cs i a ks" using pg c by simp
  have same: "\<exists>w'. isAd w' \<and> page s = (page s0)(c := Element t cs i a (ks[wpos := w']))"
  proof -
    have "page s = (page s0)(c := Element t cs i a (ks[wpos := ks ! wpos]))"
      using pg c by auto
    then show ?thesis using ad by blast
  qed
  have fin: "\<exists>w'. isAd w' \<and>
        page (stateOf (finishAd e c wpos (ks[wpos := w1]) s))
          = (page s0)(c := Element t cs i a (ks[wpos := w']))" if "isAd w1" for w1
  proof -
    have "isAd (ks[wpos := w1] ! wpos)" using that wpos by simp
    from finishAd_shape [OF c' this, of e]
    obtain w' where "isAd w'" and "stateOf (finishAd e c wpos (ks[wpos := w1]) s)
             = s\<lparr>draws := Suc (draws s), page := (page s)(c := Element t cs i a (ks[wpos := w1, wpos := w']))\<rparr>"
      by blast
    then show ?thesis using pg by auto
  qed
  have fin0: "\<exists>w'. isAd w' \<and>
        page (stateOf (finishAd e c wpos ks s)) = (page s0)(c := Element t cs i a (ks[wpos := w']))"
    using fin [OF ad] by simp
  have upd: "updateAt [wpos] f ks = ks[wpos := f (ks ! wpos)]" for f
    using wpos by simp
  show ?thesis
  proof (cases "truthy (copySiblingSelector s)")
    case True
    show ?thesis
    proof (cases "querySelector e (the (copySiblingSelector s)) (page s c)")
      case None
      then show ?thesis using g True same c by (simp add: fillAd_def)
    next
      case (Some customRef)
      show ?thesis
      proof (cases "case customRef of None \<Rightarrow> None | Some path \<Rightarrow> getAt path ks")
        case None
        then show ?thesis using g True Some c fin0 by (simp add: fillAd_def)
      next
        case found: (Some ref)
        show ?thesis
        proof (cases ref)
          case (Text x)
          then show ?thesis using g True Some found c fin0 by (simp add: fillAd_def)
        next
          case (Element rt rcs rid ra rks)
          show ?thesis
          proof (cases "cloneMarkup s adHtml")
            case None
            then show ?thesis using g True Some found Element c same by (simp add: fillAd_def)
          next
            case (Some html)
            have "isAd (setChildNodes k (ks ! wpos))" for k using ad by simp
            from fin [OF this] show ?thesis
              using g True \<open>querySelector e (the (copySiblingSelector s)) (page s c) = Some customRef\<close>
                found Element c Some upd
              by (simp add: fillAd_def Let_def)
          qed
        qed
      qed
    qed
  next
    case False
    define sibs where "sibs = filter (\<lambda>j. j \<noteq> wpos \<and> isElement (ks ! j) \<and> \<not> isAd (ks ! j)) [0..<length ks]"
    from replicateSiblingStyles_shape [of e wpos sibs ks]
    obtain w1 where r: "replicateSiblingStyles e wpos sibs ks = ks[wpos := w1]" and w1: "isAd w1"
      using ad by blast
    have "updateAt [wpos] f (ks[wpos := w1]) = ks[wpos := f w1]" for f
      using wpos by simp
    moreover have "isAd (setChildNodes k w1)" for k using w1 by simp
    ultimately show ?thesis
      using g False c r fin unfolding fillAd_def sibs_def [symmetric] Let_def
      by (simp add: sibs_def [symmetric])
  qed
qed

lemma sendAd_generic:
  assumes c: "page s c = Element t cs i a ks" and ns: "\<not> isSlot (page s c)"
    and n: "3 \<le> length (nonAdChildren ks)"
    and ch: "chooseIndex e a (length (nonAdChildren ks)) (draws s) = (Some idx, a', p)"
    and idx: "idx < length (nonAdChildren ks)"
  shows "\<exists>w'. isAd w' \<and>
           page (stateOf (sendAd e bs c fl s))
             = (page s)(c := Element t cs i a'
                  (take (wrapperPos (findFirst isAd ks) (nonAdChildren ks ! idx))
                        (detached (findFirst isAd ks) ks)
                   @ w' # drop (wrapperPos (findFirst isAd ks) (nonAdChildren ks ! idx))
                               (detached (findFirst isAd ks) ks)))"
proof -
  define r where "r = nonAdChildren ks ! idx"
  define adWrapper where "adWrapper = findFirst isAd ks"
  define rest where "rest = detached adWrapper ks"
  define wpos where "wpos = wrapperPos adWrapper r"
  define w where "w = wrapperNode adWrapper ks"
  have r: "r < length ks" and ref: "nonAd (ks ! r)"
    using nonAdChildren_nth [OF idx] by (simp_all add: r_def)
  have found: "\<exists>w0. getAt q ks = Some w0 \<and> isAd w0" if "adWrapper = Some q" for q
    using findFirst_Some [of isAd ks q] that by (simp add: adWrapper_def)
  then have found': "\<exists>w0. getAt q ks = Some w0" if "adWrapper = Some q" for q
    using that by blast
  have place: "placeWrapper adWrapper r ks = (take wpos rest @ w # drop wpos rest, wpos)"
    using placeWrapper_uniform [OF r found'] by (simp add: rest_def wpos_def w_def)
  have le: "wpos \<le> length rest"
    using detached_counts [OF r ref found] by (simp add: rest_def wpos_def)
  have w: "isAd w"
  proof (cases adWrapper)
    case None
    then show ?thesis by (simp add: w_def wrapperNode_def isAd_newAdWrapper)
  next
    case (Some q)
    then show ?thesis using found [OF Some] by (auto simp: w_def wrapperNode_def)
  qed
  define ks1 where "ks1 = take wpos rest @ w # drop wpos rest"
  define s0 where "s0 = s\<lparr>draws := p, page := (page s)(c := Element t cs i a' ks1)\<rparr>"
  have place': "placeWrapper (findFirst isAd ks) (nonAdChildren ks ! idx) ks
                  = (take wpos rest @ w # drop wpos rest, wpos)"
    using place by (simp add: adWrapper_def r_def)
  have send: "sendAd e bs c fl s = fillAd e bs c wpos s0"
    using c ns n ch place' by (simp add: sendAd_def Let_def s0_def ks1_def)
  have c0: "page s0 c = Element t cs i a' ks1" by (simp add: s0_def)
  have lt: "wpos < length ks1" using le by (simp add: ks1_def)
  have at: "ks1 ! wpos = w" using le by (simp add: ks1_def nth_append)
  from fillAd_shape [OF c0 lt, of e bs] at w
  obtain w' where w': "isAd w'"
    and pg: "page (stateOf (fillAd e bs c wpos s0)) = (page s0)(c := Element t cs i a' (ks1[wpos := w']))"
    by auto
  have "ks1[wpos := w'] = take wpos rest @ w' # drop wpos rest"
    using le by (simp add: ks1_def list_update_append)
  then have "page (stateOf (sendAd e bs c fl s))
               = (page s)(c := Element t cs i a' (take wpos rest @ w' # drop wpos rest))"
    using pg send by (simp add: s0_def)
  then show ?thesis using w'
    unfolding wpos_def rest_def adWrapper_def r_def by blast
qed

lemma sendAd_generic_counts:
  assumes c: "page s c = Element t cs i a ks" and ns: "\<not> isSlot (page s c)"
    and n: "3 \<le> length (nonAdChildren ks)"
    and ch: "chooseIndex e a (length (nonAdChildren ks)) (draws s) = (Some idx, a', p)"
    and idx: "idx < length (nonAdChildren ks)"
  shows "\<exists>A w B. page (stateOf (sendAd e bs c fl s)) = (page s)(c := Element t cs i a' (A @ w # B)) \<and>
           isAd w \<and> A \<noteq> [] \<and> nonAd (last A) \<and>
           length (filter nonAd A) = Suc idx \<and>
           length (filter nonAd B) = length (nonAdChildren ks) - Suc idx"
proof -
  define r where "r = nonAdChildren ks ! idx"
  define adWrapper where "adWrapper = findFirst isAd ks"
  define rest where "rest = detached adWrapper ks"
  define wpos where "wpos = wrapperPos adWrapper r"
  have r: "r < length ks" and ref: "nonAd (ks ! r)"
    and before: "length (filter nonAd (take r ks)) = idx"
    using nonAdChildren_nth [OF idx] by (simp_all add: r_def)
  have found: "\<exists>w0. getAt q ks = Some w0 \<and> isAd w0" if "adWrapper = Some q" for q
    using findFirst_Some [of isAd ks q] that by (simp add: adWrapper_def)
  from detached_counts [OF r ref found]
  have le: "wpos \<le> length rest" and pos: "0 < wpos" and prev: "nonAd (rest ! (wpos - 1))"
    and cntA: "length (filter nonAd (take wpos rest)) = length (filter nonAd (take (Suc r) ks))"
    and cntB: "length (filter nonAd (drop wpos rest)) = length (filter nonAd (drop (Suc r) ks))"
    by (simp_all add: rest_def wpos_def)
  have "take (Suc r) ks = take r ks @ [ks ! r]" using r by (rule take_Suc_conv_app_nth)
  then have A: "length (filter nonAd (take (Suc r) ks)) = Suc idx" using before ref by simp
  have "length (filter nonAd ks)
          = length (filter nonAd (take (Suc r) ks)) + length (filter nonAd (drop (Suc r) ks))"
    by (metis append_take_drop_id filter_append length_append)
  then have B: "length (filter nonAd (drop (Suc r) ks)) = length (nonAdChildren ks) - Suc idx"
    using A by (simp add: length_nonAdChildren)
  have ne: "take wpos rest \<noteq> []" using pos le by auto
  have "length (take wpos rest) = wpos" using le by simp
  then have "last (take wpos rest) = take wpos rest ! (wpos - 1)"
    using ne by (simp add: last_conv_nth)
  also have "\<dots> = rest ! (wpos - 1)" using pos by simp
  finally have "last (take wpos rest) = rest ! (wpos - 1)" .
  then have last: "nonAd (last (take wpos rest))" using prev by simp
  from sendAd_generic [OF c ns n ch idx, of bs fl]
  obtain w' where "isAd w'" and "page (stateOf (sendAd e bs c fl s))
      = (page s)(c := Element t cs i a' (take wpos rest @ w' # drop wpos rest))"
    unfolding wpos_def rest_def adWrapper_def r_def by blast
  then show ?thesis using ne last cntA cntB A B by metis
qed

text \<open>
  C7. On a generic container with at least three non-ad children the insertion index,
  whether drawn or read from \<^verbatim>\<open>data-ad-index\<close>, is at least 1 and at most the number of
  non-ad children minus 2, and the attribute afterwards reads as that index. After
  \<open>sendAd\<close> the wrapper directly follows a non-ad child, with \<open>idx + 1\<close> non-ad children
  before it and the remaining ones, at least one, after it: it is neither before the
  first nor after the last non-ad child.
\<close>

theorem sendAd_index_between:
  assumes "page s c = Element t cs i a ks" and "\<not> isSlot (page s c)"
    and "3 \<le> length (nonAdChildren ks)"
  shows "\<exists>idx a' p A w B.
           chooseIndex e a (length (nonAdChildren ks)) (draws s) = (Some idx, Some a', p) \<and>
           1 \<le> idx \<and> idx \<le> length (nonAdChildren ks) - 2 \<and>
           parseInt a' = Some (int idx) \<and>
           page (stateOf (sendAd e bs c fl s)) c = Element t cs i (Some a') (A @ w # B) \<and>
           isAd w \<and> A \<noteq> [] \<and> nonAd (last A) \<and>
           length (filter nonAd A) = idx + 1 \<and>
           length (filter nonAd B) = length (nonAdChildren ks) - (idx + 1) \<and>
           1 \<le> length (filter nonAd B)"
proof -
  from chooseIndex_bounds [OF assms(3), of e a "draws s"]
  obtain idx a' p where ch: "chooseIndex e a (length (nonAdChildren ks)) (draws s) = (Some idx, Some a', p)"
    and lo: "1 \<le> idx" and hi: "idx \<le> length (nonAdChildren ks) - 2"
    and pa: "parseInt a' = Some (int idx)" by blast
  have idx: "idx < length (nonAdChildren ks)" using hi assms(3) by simp
  from sendAd_generic_counts [OF assms ch idx, of bs fl]
  obtain A w B where pg: "page (stateOf (sendAd e bs c fl s)) = (page s)(c := Element t cs i (Some a') (A @ w # B))"
    and w: "isAd w" "A \<noteq> []" "nonAd (last A)"
    and cA: "length (filter nonAd A) = Suc idx"
    and cB: "length (filter nonAd B) = length (nonAdChildren ks) - Suc idx" by blast
  have pc: "page (stateOf (sendAd e bs c fl s)) c = Element t cs i (Some a') (A @ w # B)"
    using pg by simp
  have cA': "length (filter nonAd A) = idx + 1" using cA by simp
  have cB': "length (filter nonAd B) = length (nonAdChildren ks) - (idx + 1)" using cB by simp
  have one: "1 \<le> length (filter nonAd B)" using cB hi assms(3) by simp
  show ?thesis using ch lo hi pa pc w cA' cB' one by blast
qed

theorem sendAd_index_between_witness:
  "page (onPage (fourChildren None)) 0 = Element ''div'' [''box''] [] None
     [Element ''p'' [] [] None [], Text ''and'', Element ''p'' [] [] None [],
      Element ''p'' [] [] None [], Element ''p'' [] [] None []] \<and>
   \<not> isSlot (page (onPage (fourChildren None)) 0) \<and>
   3 \<le> length (nonAdChildren [Element ''p'' [] [] None [], Text ''and'', Element ''p'' [] [] None [],
      Element ''p'' [] [] None [], Element ''p'' [] [] None []]) \<and>
   (\<exists>idx a' p A w B.
      chooseIndex demoEnv None 4 (draws (onPage (fourChildren None))) = (Some idx, Some a', p) \<and>
      1 \<le> idx \<and> idx \<le> 2 \<and>
      page (stateOf (sendAd demoEnv [''ad1'', ''ad2''] 0 True (onPage (fourChildren None)))) 0
        = Element ''div'' [''box''] [] (Some a') (A @ w # B) \<and>
      isAd w \<and> length (filter nonAd A) = idx + 1 \<and> 1 \<le> length (filter nonAd B))"
proof -
  have 1: "page (onPage (fourChildren None)) 0 = Element ''div'' [''box''] [] None
     [Element ''p'' [] [] None [], Text ''and'', Element ''p'' [] [] None [],
      Element ''p'' [] [] None [], Element ''p'' [] [] None []]"
    by (simp add: onPage_def fourChildren_def)
  have 2: "\<not> isSlot (page (onPage (fourChildren None)) 0)"
    by (simp add: onPage_def fourChildren_def isSlot_def adSendBanner_def startsWith_def)
  have n: "length (nonAdChildren [Element ''p'' [] [] None [], Text ''and'', Element ''p'' [] [] None [],
      Element ''p'' [] [] None [], Element ''p'' [] [] None []]) = 4"
    by (simp add: nonAdChildren_def isAd_def)
  then have 3: "3 \<le> length (nonAdChildren [Element ''p'' [] [] None [], Text ''and'',
      Element ''p'' [] [] None [], Element ''p'' [] [] None [], Element ''p'' [] [] None []])"
    by simp
  from sendAd_index_between [OF 1 2 3, of demoEnv "[''ad1'', ''ad2'']" True]
  obtain idx a' p A w B where
    "chooseIndex demoEnv None 4 (draws (onPage (fourChildren None))) = (Some idx, Some a', p)"
    "1 \<le> idx" "idx \<le> 4 - 2"
    "page (stateOf (sendAd demoEnv [''ad1'', ''ad2''] 0 True (onPage (fourChildren None)))) 0
        = Element ''div'' [''box''] [] (Some a') (A @ w # B)"
    "isAd w" "length (filter nonAd A) = idx + 1" "1 \<le> length (filter nonAd B)"
    unfolding n by blast
  then have "\<exists>idx a' p A w B.
      chooseIndex demoEnv None 4 (draws (onPage (fourChildren None))) = (Some idx, Some a', p) \<and>
      1 \<le> idx \<and> idx \<le> 2 \<and>
      page (stateOf (sendAd demoEnv [''ad1'', ''ad2''] 0 True (onPage (fourChildren None)))) 0
        = Element ''div'' [''box''] [] (Some a') (A @ w # B) \<and>
      isAd w \<and> length (filter nonAd A) = idx + 1 \<and> 1 \<le> length (filter nonAd B)"
    by (intro exI [of _ idx] exI [of _ a'] exI [of _ p] exI [of _ A] exI [of _ w] exI [of _ B]) simp
  with 1 2 3 show ?thesis by blast
qed

text \<open>
  C3. On a generic container with at least three non-ad children whose
  \<^verbatim>\<open>data-ad-index\<close> reads as \<open>v\<close>: when \<open>1 \<le> v < n - 1\<close> the placement uses \<open>v\<close>, draws
  nothing for the index, leaves the attribute as it is and puts the wrapper right after
  non-ad child number \<open>v\<close>; otherwise the index is replaced by \<open>1\<close>, which is persisted. What
  a placement persists for an index it has drawn is the decimal string of that index,
  which reads back as the same index.
\<close>

theorem persisted_index_reused:
  assumes "page s c = Element t cs i (Some attr) ks" and "\<not> isSlot (page s c)"
    and "3 \<le> length (nonAdChildren ks)"
    and "parseInt attr = Some v"
  shows "(1 \<le> v \<and> v < int (length (nonAdChildren ks)) - 1 \<longrightarrow>
            chooseIndex e (Some attr) (length (nonAdChildren ks)) (draws s)
              = (Some (nat v), Some attr, draws s) \<and>
            (\<exists>A w B. page (stateOf (sendAd e bs c fl s)) c = Element t cs i (Some attr) (A @ w # B) \<and>
                      isAd w \<and> A \<noteq> [] \<and> nonAd (last A) \<and> length (filter nonAd A) = nat v + 1)) \<and>
         (\<not> (1 \<le> v \<and> v < int (length (nonAdChildren ks)) - 1) \<longrightarrow>
            chooseIndex e (Some attr) (length (nonAdChildren ks)) (draws s)
              = (Some 1, Some ''1'', draws s) \<and>
            (\<exists>A w B. page (stateOf (sendAd e bs c fl s)) c = Element t cs i (Some ''1'') (A @ w # B) \<and>
                      isAd w \<and> A \<noteq> [] \<and> nonAd (last A) \<and> length (filter nonAd A) = 2)) \<and>
         (\<forall>p. \<exists>idx. chooseIndex e None (length (nonAdChildren ks)) p
                       = (Some idx, Some (numToString idx), Suc p)) \<and>
         (\<forall>k. parseInt (numToString k) = Some (int k))"
proof -
  let ?n = "length (nonAdChildren ks)"
  have valid: "chooseIndex e (Some attr) ?n (draws s) = (Some (nat v), Some attr, draws s) \<and>
      (\<exists>A w B. page (stateOf (sendAd e bs c fl s)) c = Element t cs i (Some attr) (A @ w # B) \<and>
                isAd w \<and> A \<noteq> [] \<and> nonAd (last A) \<and> length (filter nonAd A) = nat v + 1)"
    if v: "1 \<le> v \<and> v < int ?n - 1"
  proof -
    have ch: "chooseIndex e (Some attr) ?n (draws s) = (Some (nat v), Some attr, draws s)"
      using assms(4) v by (simp add: chooseIndex_valid)
    have "nat v < ?n" using v by linarith
    from sendAd_generic_counts [OF assms(1,2,3) ch this, of bs fl]
    obtain A w B where "page (stateOf (sendAd e bs c fl s)) = (page s)(c := Element t cs i (Some attr) (A @ w # B))"
      and "isAd w" "A \<noteq> []" "nonAd (last A)" "length (filter nonAd A) = Suc (nat v)" by blast
    then have "page (stateOf (sendAd e bs c fl s)) c = Element t cs i (Some attr) (A @ w # B) \<and>
               isAd w \<and> A \<noteq> [] \<and> nonAd (last A) \<and> length (filter nonAd A) = nat v + 1"
      by simp
    then show ?thesis using ch by blast
  qed
  have invalid: "chooseIndex e (Some attr) ?n (draws s) = (Some 1, Some ''1'', draws s) \<and>
      (\<exists>A w B. page (stateOf (sendAd e bs c fl s)) c = Element t cs i (Some ''1'') (A @ w # B) \<and>
                isAd w \<and> A \<noteq> [] \<and> nonAd (last A) \<and> length (filter nonAd A) = 2)"
    if v: "\<not> (1 \<le> v \<and> v < int ?n - 1)"
  proof -
    have "parseInt attr = None \<or> (\<exists>idx. parseInt attr = Some idx \<and> (idx < 1 \<or> int ?n - 1 \<le> idx))"
      using assms(4) v by auto
    then have ch: "chooseIndex e (Some attr) ?n (draws s) = (Some 1, Some ''1'', draws s)"
      by (rule chooseIndex_invalid)
    have "1 < ?n" using assms(3) by simp
    from sendAd_generic_counts [OF assms(1,2,3) ch this, of bs fl]
    obtain A w B where "page (stateOf (sendAd e bs c fl s)) = (page s)(c := Element t cs i (Some ''1'') (A @ w # B))"
      and "isAd w" "A \<noteq> []" "nonAd (last A)" "length (filter nonAd A) = Suc 1" by blast
    then have "page (stateOf (sendAd e bs c fl s)) c = Element t cs i (Some ''1'') (A @ w # B) \<and>
               isAd w \<and> A \<noteq> [] \<and> nonAd (last A) \<and> length (filter nonAd A) = 2"
      by simp
    then show ?thesis using ch by blast
  qed
  have fresh: "\<exists>idx. chooseIndex e None ?n p = (Some idx, Some (numToString idx), Suc p)" for p
    using chooseIndex_fresh [OF assms(3), of e p] by blast
  show ?thesis using valid invalid fresh parseInt_numToString by blast
qed

theorem persisted_index_reused_witness:
  "page (onPage (fourChildren (Some ''2''))) 0 = Element ''div'' [''box''] [] (Some ''2'')
     [Element ''p'' [] [] None [], Text ''and'', Element ''p'' [] [] None [],
      Element ''p'' [] [] None [], Element ''p'' [] [] None []] \<and>
   \<not> isSlot (page (onPage (fourChildren (Some ''2''))) 0) \<and>
   3 \<le> length (nonAdChildren [Element ''p'' [] [] None [], Text ''and'', Element ''p'' [] [] None [],
      Element ''p'' [] [] None [], Element ''p'' [] [] None []]) \<and>
   parseInt ''2'' = Some 2 \<and>
   chooseIndex demoEnv (Some ''2'') 4 (draws (onPage (fourChildren (Some ''2''))))
     = (Some 2, Some ''2'', draws (onPage (fourChildren (Some ''2''))))"
proof -
  have 1: "page (onPage (fourChildren (Some ''2''))) 0 = Element ''div'' [''box''] [] (Some ''2'')
     [Element ''p'' [] [] None [], Text ''and'', Element ''p'' [] [] None [],
      Element ''p'' [] [] None [], Element ''p'' [] [] None []]"
    by (simp add: onPage_def fourChildren_def)
  have 2: "\<not> isSlot (page (onPage (fourChildren (Some ''2''))) 0)"
    by (simp add: onPage_def fourChildren_def isSlot_def adSendBanner_def startsWith_def)
  have n: "length (nonAdChildren [Element ''p'' [] [] None [], Text ''and'', Element ''p'' [] [] None [],
      Element ''p'' [] [] None [], Element ''p'' [] [] None []]) = 4"
    by (simp add: nonAdChildren_def isAd_def)
  then have 3: "3 \<le> length (nonAdChildren [Element ''p'' [] [] None [], Text ''and'',
      Element ''p'' [] [] None [], Element ''p'' [] [] None [], Element ''p'' [] [] None []])"
    by simp
  have 4: "parseInt ''2'' = Some 2" by code_simp
  from persisted_index_reused [OF 1 2 3 4, of demoEnv "[''ad1'', ''ad2'']" True]
  have "chooseIndex demoEnv (Some ''2'') 4 (draws (onPage (fourChildren (Some ''2''))))
     = (Some 2, Some ''2'', draws (onPage (fourChildren (Some ''2''))))"
    unfolding n by simp
  with 1 2 3 4 show ?thesis by blast
qed

section \<open>One wrapper per container\<close>

lemma findFirst_Cons_None:
  "findFirst P (x # ns) = None \<longleftrightarrow>
     (case x of Text t \<Rightarrow> True | Element t cs i a ks \<Rightarrow> \<not> P x \<and> findFirst P ks = None)
     \<and> findFirst P ns = None"
  by (cases x) (auto split: option.splits)

lemma findFirst_append_None:
  "findFirst P (A @ B) = None \<longleftrightarrow> findFirst P A = None \<and> findFirst P B = None"
  by (induction A) (auto simp: findFirst_Cons_None)

lemma wrapperFree_append: "wrapperFree (A @ B) \<longleftrightarrow> wrapperFree A \<and> wrapperFree B"
  by (simp add: wrapperFree_def findFirst_append_None)

lemma wrapperFree_Nil: "wrapperFree []"
  by (simp add: wrapperFree_def)

lemma wrapperFree_take_drop: "wrapperFree ks \<Longrightarrow> wrapperFree (take n ks) \<and> wrapperFree (drop n ks)"
  using wrapperFree_append [of "take n ks" "drop n ks"] by simp

lemma findFirst_after_free:
  assumes "findFirst isAd A = None" and "isAd w"
  shows "findFirst isAd (A @ w # B) = Some [length A]"
  using assms(1)
proof (induction A)
  case Nil
  then show ?case using assms(2) by (cases w) (simp_all add: isAd_def)
next
  case (Cons x A)
  then have x: "case x of Text t \<Rightarrow> True | Element t cs i a ks \<Rightarrow> \<not> isAd x \<and> findFirst isAd ks = None"
    and A: "findFirst isAd A = None"
    by (simp_all add: findFirst_Cons_None)
  from Cons.IH [OF A] have "findFirst isAd (A @ w # B) = Some [length A]" .
  then show ?case using x by (cases x) (simp_all add: bumpHead_def)
qed

lemma wrapperFree_no_ad: "wrapperFree ks \<Longrightarrow> filter isAd ks = []"
proof (induction ks)
  case Nil
  then show ?case by simp
next
  case (Cons x ks)
  then have 1: "wrapperFree ks"
    by (simp add: wrapperFree_def findFirst_Cons_None)
  have 2: "\<not> isAd x"
    using Cons.prems by (cases x) (auto simp: wrapperFree_def isAd_def split: if_splits)
  show ?case using Cons.IH [OF 1] 2 by simp
qed

lemma ownsOneWrapper_count: "ownsOneWrapper ks \<Longrightarrow> length (filter isAd ks) = 1"
  by (auto simp: ownsOneWrapper_def wrapperFree_no_ad)

lemma ownsOneWrapper_find:
  assumes "ks = A @ w # B" and "isAd w" and "wrapperFree A"
  shows "findFirst isAd ks = Some [length A]"
  using findFirst_after_free [of A w B] assms by (simp add: wrapperFree_def)

lemma detached_free:
  assumes "wrapperFree ks \<or> ownsOneWrapper ks"
  shows "wrapperFree (detached (findFirst isAd ks) ks)"
  using assms
proof
  assume "wrapperFree ks"
  then show ?thesis by (simp add: detached_def wrapperFree_def)
next
  assume "ownsOneWrapper ks"
  then obtain A w B where ks: "ks = A @ w # B" and w: "isAd w" and A: "wrapperFree A" and B: "wrapperFree B"
    by (auto simp: ownsOneWrapper_def)
  have "findFirst isAd ks = Some [length A]" using ks w A by (rule ownsOneWrapper_find)
  moreover have "removeAt [length A] (A @ w # B) = A @ B" by simp
  ultimately show ?thesis using ks A B by (simp add: detached_def wrapperFree_append)
qed

lemma finishAd_page_other: "h \<noteq> c \<Longrightarrow> page (stateOf (finishAd e c wpos ks s)) h = page s h"
  by (simp add: finishAd_def Let_def split: prod.splits)

lemma fillAd_page_other:
  assumes "h \<noteq> c" shows "page (stateOf (fillAd e bs c wpos s0)) h = page s0 h"
proof -
  obtain ad s where g: "getNextAd e c bs s0 = (ad, s)" by fastforce
  have pg: "page s = page s0" using getNextAd_page [of e c bs s0] g by simp
  have f: "page (stateOf (finishAd e c wpos ks s)) h = page s0 h" for ks
    using finishAd_page_other [OF assms] pg by simp
  show ?thesis
    using g pg f by (simp add: fillAd_def Let_def split: option.splits node.splits)
qed

lemma sendAdSlot_page:
  "page (sendAdSlot e bs c s0)
     = (page s0)(c := setChildNodes
          (updateAt (case findFirst isAd (childNodes (page s0 c)) of None \<Rightarrow> [0] | Some p \<Rightarrow> p)
             (setChildNodes (parseHTML e (toString (fst (getNextAd e c bs s0)))))
             (case findFirst isAd (childNodes (page s0 c)) of
                None \<Rightarrow> [newAdWrapper] | Some p \<Rightarrow> childNodes (page s0 c)))
          (page s0 c))"
proof -
  obtain ad s where g: "getNextAd e c bs s0 = (ad, s)" by fastforce
  have pg: "page s = page s0" using getNextAd_page [of e c bs s0] g by simp
  show ?thesis using g pg
    by (simp add: sendAdSlot_def Let_def split: option.splits)
qed

lemma sendAd_page_other:
  assumes "h \<noteq> c" shows "page (stateOf (sendAd e bs c fl s)) h = page s h"
proof (cases "page s c")
  case (Text x)
  then show ?thesis by (simp add: sendAd_def)
next
  case (Element t cs i a ks)
  have fill: "page (stateOf (fillAd e bs c wpos (s\<lparr>draws := p, page := pg\<rparr>))) h = pg h" for wpos p pg
    using fillAd_page_other [OF assms, of e bs wpos "s\<lparr>draws := p, page := pg\<rparr>"] by simp
  show ?thesis
    using Element assms fill
    by (simp add: sendAd_def Let_def sendAdSlot_page split: prod.splits option.splits)
qed

lemma isSlot_attrs: "isSlot (Element t cs i a ks) = isSlot (Element t cs i a' ks')"
  by (simp add: isSlot_def)

lemma sendAd_slot_tidy:
  assumes c: "page s c = Element t cs i a ks" and slot: "isSlot (page s c)"
    and tidy: "wrapperFree ks \<or> ownsOneWrapper ks"
  shows "\<exists>ks'. page (stateOf (sendAd e bs c fl s)) c = Element t cs i a ks' \<and> ownsOneWrapper ks'"
proof -
  define f where "f = setChildNodes (parseHTML e (toString (fst (getNextAd e c bs s))))"
  have fad: "isAd (f w)" if "isAd w" for w using that by (simp add: f_def)
  have send: "page (stateOf (sendAd e bs c fl s)) c
      = Element t cs i a (updateAt (case findFirst isAd ks of None \<Rightarrow> [0] | Some p \<Rightarrow> p) f
           (case findFirst isAd ks of None \<Rightarrow> [newAdWrapper] | Some p \<Rightarrow> ks))"
    using c slot by (simp add: sendAd_def sendAdSlot_page f_def split: option.splits)
  from tidy show ?thesis
  proof
    assume "wrapperFree ks"
    then have "findFirst isAd ks = None" by (simp add: wrapperFree_def)
    then have "page (stateOf (sendAd e bs c fl s)) c = Element t cs i a ([] @ f newAdWrapper # [])"
      using send by simp
    moreover have "ownsOneWrapper ([] @ f newAdWrapper # [])"
      unfolding ownsOneWrapper_def using fad [OF isAd_newAdWrapper] wrapperFree_Nil by blast
    ultimately show ?thesis by blast
  next
    assume "ownsOneWrapper ks"
    then obtain A w B where ks: "ks = A @ w # B" and w: "isAd w" and A: "wrapperFree A" and B: "wrapperFree B"
      by (auto simp: ownsOneWrapper_def)
    have "findFirst isAd ks = Some [length A]" using ks w A by (rule ownsOneWrapper_find)
    moreover have "updateAt [length A] f (A @ w # B) = A @ f w # B" by simp
    ultimately have "page (stateOf (sendAd e bs c fl s)) c = Element t cs i a (A @ f w # B)"
      using send ks by simp
    moreover have "ownsOneWrapper (A @ f w # B)"
      unfolding ownsOneWrapper_def using fad [OF w] A B by blast
    ultimately show ?thesis by blast
  qed
qed

lemma sendAd_generic_tidy:
  assumes c: "page s c = Element t cs i a ks" and ns: "\<not> isSlot (page s c)"
    and n: "3 \<le> length (nonAdChildren ks)"
    and tidy: "wrapperFree ks \<or> ownsOneWrapper ks"
  shows "\<exists>a' ks'. page (stateOf (sendAd e bs c fl s)) c = Element t cs i a' ks' \<and>
           ownsOneWrapper ks' \<and> length (nonAdChildren ks') = length (nonAdChildren ks)"
proof -
  from chooseIndex_bounds [OF n, of e a "draws s"]
  obtain idx a' p where ch: "chooseIndex e a (length (nonAdChildren ks)) (draws s) = (Some idx, Some a', p)"
    and hi: "idx \<le> length (nonAdChildren ks) - 2" by blast
  have idx: "idx < length (nonAdChildren ks)" using hi n by simp
  define rest where "rest = detached (findFirst isAd ks) ks"
  define wpos where "wpos = wrapperPos (findFirst isAd ks) (nonAdChildren ks ! idx)"
  from sendAd_generic [OF c ns n ch idx, of bs fl]
  obtain w' where w': "isAd w'"
    and pg: "page (stateOf (sendAd e bs c fl s)) c
               = Element t cs i (Some a') (take wpos rest @ w' # drop wpos rest)"
    unfolding rest_def wpos_def by auto
  have "wrapperFree rest" using detached_free [OF tidy] by (simp add: rest_def)
  then have "wrapperFree (take wpos rest)" and "wrapperFree (drop wpos rest)"
    using wrapperFree_take_drop by blast+
  then have one: "ownsOneWrapper (take wpos rest @ w' # drop wpos rest)"
    unfolding ownsOneWrapper_def using w' by blast
  from sendAd_generic_counts [OF c ns n ch idx, of bs fl]
  obtain A w B where pg2: "page (stateOf (sendAd e bs c fl s)) c = Element t cs i (Some a') (A @ w # B)"
    and w: "isAd w" and cA: "length (filter nonAd A) = Suc idx"
    and cB: "length (filter nonAd B) = length (nonAdChildren ks) - Suc idx" by auto
  have "\<not> nonAd w" using w by (simp add: nonAd_def)
  then have "length (filter nonAd (A @ w # B)) = length (nonAdChildren ks)"
    using cA cB idx by simp
  moreover have "A @ w # B = take wpos rest @ w' # drop wpos rest" using pg pg2 by simp
  ultimately have "length (nonAdChildren (take wpos rest @ w' # drop wpos rest)) = length (nonAdChildren ks)"
    by (simp add: length_nonAdChildren)
  then show ?thesis using pg one by blast
qed

lemma sendAd_step:
  assumes c: "page s c = Element t cs i a ks" and tidy: "wrapperFree ks \<or> ownsOneWrapper ks"
  shows "\<exists>a' ks'. page (stateOf (sendAd e bs c fl s)) c = Element t cs i a' ks' \<and>
           eligible (Element t cs i a' ks') = eligible (Element t cs i a ks) \<and>
           (if eligible (Element t cs i a ks) then ownsOneWrapper ks' else ks' = ks)"
proof (cases "isSlot (page s c)")
  case True
  from sendAd_slot_tidy [OF c True tidy, of e bs fl]
  obtain ks' where "page (stateOf (sendAd e bs c fl s)) c = Element t cs i a ks'" "ownsOneWrapper ks'"
    by blast
  moreover have "eligible (Element t cs i a ks') \<and> eligible (Element t cs i a ks)"
    using True c isSlot_attrs [of t cs i a ks a ks'] by (simp add: eligible_def)
  ultimately show ?thesis by auto
next
  case ns: False
  then have nslot: "\<not> isSlot (Element t cs i a' ks')" for a' ks'
    using c isSlot_attrs [of t cs i a ks a' ks'] by simp
  show ?thesis
  proof (cases "3 \<le> length (nonAdChildren ks)")
    case True
    from sendAd_generic_tidy [OF c ns True tidy, of e bs fl]
    obtain a' ks' where r: "page (stateOf (sendAd e bs c fl s)) c = Element t cs i a' ks'"
      "ownsOneWrapper ks'" "length (nonAdChildren ks') = length (nonAdChildren ks)" by blast
    have "eligible (Element t cs i a' ks') \<and> eligible (Element t cs i a ks)"
      using True r(3) by (simp add: eligible_def)
    then show ?thesis using r by auto
  next
    case False
    then have "sendAd e bs c fl s = Returned s" using c ns by (simp add: sendAd_def Let_def)
    moreover have "\<not> eligible (Element t cs i a ks)" using False nslot by (simp add: eligible_def)
    ultimately show ?thesis using c by auto
  qed
qed

lemma settled_count: "settled b c \<Longrightarrow> adWrappers c = (if b then 1 else 0)"
  by (auto simp: settled_def adWrappers_def ownsOneWrapper_count wrapperFree_no_ad split: if_splits)

lemma tidyNode_count: "tidyNode c \<Longrightarrow> adWrappers c \<le> 1"
  by (auto simp: tidyNode_def adWrappers_def ownsOneWrapper_count wrapperFree_no_ad)

lemma sendAd_first:
  assumes "page s c = Element t cs i a ks" and "wrapperFree ks"
  shows "settled (eligible (page s c)) (page (stateOf (sendAd e bs c fl s)) c)"
proof -
  from sendAd_step [OF assms(1), of e bs fl] assms(2)
  obtain a' ks' where r: "page (stateOf (sendAd e bs c fl s)) c = Element t cs i a' ks'"
    "eligible (Element t cs i a' ks') = eligible (Element t cs i a ks)"
    "if eligible (Element t cs i a ks) then ownsOneWrapper ks' else ks' = ks" by blast
  show ?thesis
    unfolding settled_def r(1) assms(1) using r(2,3) assms(2) by (auto split: if_splits)
qed

lemma sendAd_settled:
  assumes "settled b (page s h)"
  shows "settled b (page (stateOf (sendAd e bs c fl s)) h)"
proof (cases "h = c")
  case False
  then show ?thesis using assms sendAd_page_other [of h c e bs fl s] by simp
next
  case True
  from assms obtain t cs i a ks where c: "page s c = Element t cs i a ks"
    and el: "eligible (Element t cs i a ks) = b"
    and w: "if b then ownsOneWrapper ks else wrapperFree ks"
    unfolding settled_def True by auto
  have tidy: "wrapperFree ks \<or> ownsOneWrapper ks" using w by (auto split: if_splits)
  from sendAd_step [OF c tidy, of e bs fl]
  obtain a' ks' where r: "page (stateOf (sendAd e bs c fl s)) c = Element t cs i a' ks'"
    "eligible (Element t cs i a' ks') = eligible (Element t cs i a ks)"
    "if eligible (Element t cs i a ks) then ownsOneWrapper ks' else ks' = ks" by blast
  show ?thesis
    unfolding settled_def True r(1) using r(2,3) el w by (auto split: if_splits)
qed

lemma sendAd_tidyNode:
  assumes "tidyNode (page s h)"
  shows "tidyNode (page (stateOf (sendAd e bs c fl s)) h)"
proof (cases "h = c")
  case False
  then show ?thesis using assms sendAd_page_other [of h c e bs fl s] by simp
next
  case True
  from assms obtain t cs i a ks where c: "page s c = Element t cs i a ks"
    and tidy: "wrapperFree ks \<or> ownsOneWrapper ks"
    unfolding tidyNode_def True by auto
  from sendAd_step [OF c tidy, of e bs fl]
  obtain a' ks' where r: "page (stateOf (sendAd e bs c fl s)) c = Element t cs i a' ks'"
    "if eligible (Element t cs i a ks) then ownsOneWrapper ks' else ks' = ks" by blast
  show ?thesis
    unfolding tidyNode_def True r(1) using r(2) tidy by (auto split: if_splits)
qed

lemma forEachSendAd_preserves:
  assumes step: "\<And>s c. Q (page s h) \<Longrightarrow> Q (page (stateOf (sendAd e (banners s) c fl s)) h)"
    and "Q (page s h)"
  shows "Q (page (stateOf (forEachSendAd e fl cs s)) h)"
  using assms(2)
proof (induction cs arbitrary: s)
  case Nil
  then show ?case by simp
next
  case (Cons c cs)
  have q: "Q (page (stateOf (sendAd e (banners s) c fl s)) h)" using step Cons.prems by blast
  show ?case
  proof (cases "sendAd e (banners s) c fl s")
    case (Returned s1)
    then show ?thesis using q Cons.IH [of s1] by simp
  next
    case (Threw x s1)
    then show ?thesis using q by simp
  qed
qed

lemma fetch_page: "page (fetchAllBannersFromFile e s) = page s"
  by (simp add: fetchAllBannersFromFile_def Let_def
       split: fetch_outcome.splits response_body.splits json_document.splits option.splits)

lemma rotateAdSlots_preserves:
  assumes step: "\<And>s c. Q (page s h) \<Longrightarrow> Q (page (stateOf (sendAd e (banners s) c False s)) h)"
    and q: "Q (page s h)"
  shows "Q (page (stateOf (rotateAdSlots e s)) h)"
proof -
  have "Q (page (stateOf (forEachSendAd e False cs (s\<lparr>draws := p\<rparr>))) h)" for cs p
    using forEachSendAd_preserves [of Q h e False "s\<lparr>draws := p\<rparr>" cs] step q by simp
  then show ?thesis using q
    by (simp add: rotateAdSlots_def Let_def split: option.splits prod.splits)
qed

lemma runTicks_preserves:
  assumes step: "\<And>s c. Q (page s h) \<Longrightarrow> Q (page (stateOf (sendAd e (banners s) c False s)) h)"
    and "Q (page s h)"
  shows "Q (page (runTicks e ticks s) h)"
  using assms(2)
proof (induction ticks arbitrary: s)
  case Nil
  then show ?case by simp
next
  case (Cons cb cbs)
  have "Q (page (stateOf (timerTick e cb s)) h)"
  proof (cases cb)
    case RotateAdSlots
    then show ?thesis using rotateAdSlots_preserves [of Q h e s] step Cons.prems
      by (simp add: timerTick_def)
  next
    case FetchAllBannersFromFile
    then show ?thesis using Cons.prems by (simp add: timerTick_def fetch_page)
  qed
  then show ?case using Cons.IH by simp
qed

text \<open>
  Why the containers have to be separate: \<open>sendAd\<close> looks for the wrapper at any depth
  below its container, so on a container that holds another one it finds the wrapper
  of the inner container and moves it out. The inner container is left without a
  wrapper.
\<close>

lemma sendAd_takes_nested_wrapper:
  "adWrappers innerPlaced = 1 \<and>
   (\<exists>outer inner. page (stateOf (sendAd demoEnv [''ad1'', ''ad2''] 0 False (onPage nestedContainers))) 0
        = outer \<and> childNodes outer ! 1 = inner \<and>
      adWrappers outer = 1 \<and> adWrappers inner = 0 \<and>
      inner = Element ''div'' [''box''] [] (Some ''1'')
                [Element ''p'' [] [] None [], Element ''p'' [] [] None [], Element ''p'' [] [] None []])"
proof -
  let ?p = "Element ''p'' [] [] None []"
  let ?ks = "[?p, innerPlaced, ?p]"
  have ad: "isAd newAdWrapper" by (rule isAd_newAdWrapper)
  have np: "\<not> isAd ?p" and ni: "\<not> isAd innerPlaced"
    by (simp_all add: isAd_def innerPlaced_def adSendBanner_def)
  have c: "page (onPage nestedContainers) 0 = Element ''div'' [''box''] [] None ?ks"
    by (simp add: onPage_def nestedContainers_def)
  have ns: "\<not> isSlot (page (onPage nestedContainers) 0)"
    unfolding c by (simp add: isSlot_def adSendBanner_def startsWith_def)
  have ch: "nonAdChildren ?ks = [0, 1, 2]"
    using np ni by (simp add: nonAdChildren_def innerPlaced_def upt_rec)
  then have n: "3 \<le> length (nonAdChildren ?ks)" by simp
  have idx: "chooseIndex demoEnv None (length (nonAdChildren ?ks)) (draws (onPage nestedContainers))
               = (Some 1, Some ''1'', Suc (draws (onPage nestedContainers)))"
    unfolding ch using numToString_1 by (simp add: chooseIndex_def randomIndex_def upt_rec)
  have lt: "1 < length (nonAdChildren ?ks)" unfolding ch by simp
  have found: "findFirst isAd ?ks = Some [1, 2]"
    by (simp add: innerPlaced_def newAdWrapper_def isAd_def adSendBanner_def bumpHead_def)
  have rest: "detached (Some [1, 2]) ?ks
                = [?p, Element ''div'' [''box''] [] (Some ''1'') [?p, ?p, ?p], ?p]"
    by (simp add: detached_def innerPlaced_def)
  have pos: "wrapperPos (Some [1, 2]) (nonAdChildren ?ks ! 1) = 2"
    unfolding ch by (simp add: wrapperPos_def refAfterDetach_def)
  from sendAd_generic [OF c ns n idx lt, of "[''ad1'', ''ad2'']" False]
  obtain w' where w': "isAd w'"
    and pg: "page (stateOf (sendAd demoEnv [''ad1'', ''ad2''] 0 False (onPage nestedContainers))) 0
               = Element ''div'' [''box''] [] (Some ''1'')
                   [?p, Element ''div'' [''box''] [] (Some ''1'') [?p, ?p, ?p], w', ?p]"
    unfolding found rest pos by auto
  have 1: "adWrappers innerPlaced = 1"
    using np ad by (simp add: adWrappers_def innerPlaced_def)
  have 2: "adWrappers (Element ''div'' [''box''] [] (Some ''1'')
             [?p, Element ''div'' [''box''] [] (Some ''1'') [?p, ?p, ?p], w', ?p]) = 1"
    using np w' by (simp add: adWrappers_def isAd_def adSendBanner_def)
  have 3: "adWrappers (Element ''div'' [''box''] [] (Some ''1'') [?p, ?p, ?p]) = 0"
    using np by (simp add: adWrappers_def)
  show ?thesis unfolding pg using 1 2 3 by simp
qed

text \<open>
  C5, amended. The matched containers are separate: none lies inside another, each has
  the tree of its own handle. For such a container below which no element has the
  wrapper class yet: after an initial \<open>sendAd\<close>, and after any further timer ticks
  (rotations and re-fetches), a preset slot or a generic container with at least three
  non-ad children owns exactly one wrapper, and a generic container with fewer than
  three owns none; whether or not it was ever sent an ad, it never owns more than one.
\<close>

theorem one_wrapper_per_container:
  assumes "page s c = Element t cs i a ks" and "wrapperFree ks"
  shows "adWrappers (page (stateOf (sendAd e bs c fl s)) c) = (if eligible (page s c) then 1 else 0) \<and>
         adWrappers (page (runTicks e ticks (stateOf (sendAd e bs c fl s))) c)
           = (if eligible (page s c) then 1 else 0) \<and>
         adWrappers (page (runTicks e ticks s) c) \<le> 1"
proof -
  have first: "settled (eligible (page s c)) (page (stateOf (sendAd e bs c fl s)) c)"
    using assms by (rule sendAd_first)
  have later: "settled (eligible (page s c)) (page (runTicks e ticks (stateOf (sendAd e bs c fl s))) c)"
    using first by (rule runTicks_preserves [rotated]) (rule sendAd_settled)
  have "tidyNode (page s c)" using assms by (simp add: tidyNode_def)
  then have any: "tidyNode (page (runTicks e ticks s) c)"
    by (rule runTicks_preserves [rotated]) (rule sendAd_tidyNode)
  show ?thesis
    using settled_count [OF first] settled_count [OF later] tidyNode_count [OF any] by simp
qed

text \<open>
  C5 as stated fails: a generic container with two child elements holds no wrapper
  after its initial \<open>sendAd\<close>.
\<close>

theorem one_wrapper_per_container_counterexample:
  "\<not> isSlot twoChildren \<and> wrapperFree (childNodes twoChildren) \<and>
   adWrappers (page (stateOf (sendAd demoEnv [''ad1'', ''ad2''] 0 True (onPage twoChildren))) 0) = 0"
  by (simp add: twoChildren_def onPage_def demoState_def sendAd_def isSlot_def adSendBanner_def
        startsWith_def nonAdChildren_def wrapperFree_def isAd_def adWrappers_def Let_def)

theorem one_wrapper_per_container_witness:
  "page (onPage (fourChildren None)) 0 = Element ''div'' [''box''] [] None
     [Element ''p'' [] [] None [], Text ''and'', Element ''p'' [] [] None [],
      Element ''p'' [] [] None [], Element ''p'' [] [] None []] \<and>
   wrapperFree [Element ''p'' [] [] None [], Text ''and'', Element ''p'' [] [] None [],
      Element ''p'' [] [] None [], Element ''p'' [] [] None []] \<and>
   eligible (page (onPage (fourChildren None)) 0) \<and>
   adWrappers (page (runTicks demoEnv [RotateAdSlots, FetchAllBannersFromFile, RotateAdSlots]
      (stateOf (sendAd demoEnv [''ad1'', ''ad2''] 0 True (onPage (fourChildren None))))) 0) = 1"
proof -
  have 1: "page (onPage (fourChildren None)) 0 = Element ''div'' [''box''] [] None
     [Element ''p'' [] [] None [], Text ''and'', Element ''p'' [] [] None [],
      Element ''p'' [] [] None [], Element ''p'' [] [] None []]"
    by (simp add: onPage_def fourChildren_def)
  have 2: "wrapperFree [Element ''p'' [] [] None [], Text ''and'', Element ''p'' [] [] None [],
      Element ''p'' [] [] None [], Element ''p'' [] [] None []]"
    by (simp add: wrapperFree_def isAd_def)
  have 3: "eligible (page (onPage (fourChildren None)) 0)"
    unfolding 1 by (simp add: eligible_def nonAdChildren_def isAd_def)
  from one_wrapper_per_container [OF 1 2, of demoEnv "[''ad1'', ''ad2'']" True
      "[RotateAdSlots, FetchAllBannersFromFile, RotateAdSlots]"] 3
  have "adWrappers (page (runTicks demoEnv [RotateAdSlots, FetchAllBannersFromFile, RotateAdSlots]
      (stateOf (sendAd demoEnv [''ad1'', ''ad2''] 0 True (onPage (fourChildren None))))) 0) = 1"
    by simp
  with 1 2 3 show ?thesis by blast
qed

end
